theory Spec2Isabelle
  imports Main "HOL-Library.Sublist" "HOL-Library.Multiset"
begin

section \<open>Go library functions the generator calls\<close>

text \<open>
  Go strings and byte slices are sequences of bytes: \<open>string\<close> (a list of 8-bit
  characters) stands for both. An \<open>error\<close> value is represented by its message, the text
  that \<open>err.Error()\<close> returns and that \<open>%s\<close> prints.
\<close>

type_synonym bytes = string
type_synonym error = string
type_synonym regexp = string \<comment> \<open>a compiled \<open>*regexp.Regexp\<close>, given by its pattern\<close>

definition Contains :: "string \<Rightarrow> string \<Rightarrow> bool" where
  \<comment> \<open>\<open>bytes.Contains(s, sub)\<close>\<close>
  "Contains s sub = sublist sub s"

definition in_range :: "nat \<Rightarrow> nat \<Rightarrow> char \<Rightarrow> bool" where
  "in_range lo hi c = (lo \<le> of_char c \<and> (of_char c :: nat) \<le> hi)"

fun rune_width :: "string \<Rightarrow> nat" where
  \<comment> \<open>the width that \<open>utf8.DecodeRune\<close> returns: 0 on empty input, 1 on an invalid encoding\<close>
  "rune_width [] = 0"
| "rune_width (c # cs) =
     (let b = (of_char c :: nat) in
      if b < 0x80 then 1
      else if 0xC2 \<le> b \<and> b \<le> 0xDF then
        (case cs of
           c1 # _ \<Rightarrow> if in_range 0x80 0xBF c1 then 2 else 1
         | _ \<Rightarrow> 1)
      else if 0xE0 \<le> b \<and> b \<le> 0xEF then
        (case cs of
           c1 # c2 # _ \<Rightarrow>
             if in_range (if b = 0xE0 then 0xA0 else 0x80) (if b = 0xED then 0x9F else 0xBF) c1
                \<and> in_range 0x80 0xBF c2
             then 3 else 1
         | _ \<Rightarrow> 1)
      else if 0xF0 \<le> b \<and> b \<le> 0xF4 then
        (case cs of
           c1 # c2 # c3 # _ \<Rightarrow>
             if in_range (if b = 0xF0 then 0x90 else 0x80) (if b = 0xF4 then 0x8F else 0xBF) c1
                \<and> in_range 0x80 0xBF c2 \<and> in_range 0x80 0xBF c3
             then 4 else 1
         | _ \<Rightarrow> 1)
      else 1)"

lemma rune_width_pos: "0 < rune_width (c # cs)"
  by (simp add: Let_def split: list.splits)

text \<open>
  \<open>bytes.Replace(s, old, new, n)\<close> and \<open>strings.Replace\<close>: the first \<open>n\<close> non-overlapping
  occurrences of \<open>old\<close>, found from left to right, are replaced by \<open>new\<close>; all of them
  when \<open>n < 0\<close>. An empty \<open>old\<close> matches at the start and after every UTF-8 sequence.
\<close>

function replace_all :: "string \<Rightarrow> string \<Rightarrow> string \<Rightarrow> string" where
  "replace_all old new [] = []"
| "replace_all old new (c # cs) =
     (if old \<noteq> [] \<and> prefix old (c # cs)
      then new @ replace_all old new (drop (length old) (c # cs))
      else c # replace_all old new cs)"
  by pat_completeness auto
termination
  by (relation "measure (\<lambda>(old, new, s). length s)") auto

function replace_upto :: "nat \<Rightarrow> string \<Rightarrow> string \<Rightarrow> string \<Rightarrow> string" where
  "replace_upto 0 old new s = s"
| "replace_upto (Suc k) old new [] = []"
| "replace_upto (Suc k) old new (c # cs) =
     (if old \<noteq> [] \<and> prefix old (c # cs)
      then new @ replace_upto k old new (drop (length old) (c # cs))
      else c # replace_upto (Suc k) old new cs)"
  by pat_completeness auto
termination
  by (relation "measure (\<lambda>(k, old, new, s). length s)") auto

function runes_sep_upto :: "nat \<Rightarrow> string \<Rightarrow> string \<Rightarrow> string" where
  \<comment> \<open>\<open>new\<close> written after each of the first \<open>k\<close> UTF-8 sequences of the input\<close>
  "runes_sep_upto 0 new s = s"
| "runes_sep_upto (Suc k) new [] = []"
| "runes_sep_upto (Suc k) new (c # cs) =
     take (rune_width (c # cs)) (c # cs) @ new
       @ runes_sep_upto k new (drop (rune_width (c # cs)) (c # cs))"
  by pat_completeness auto
termination
proof (relation "measure (\<lambda>(k, new, s). length s)")
  show "wf (measure (\<lambda>(k, new, s). length s))"
    by simp
next
  fix k :: nat and new :: string and c :: char and cs :: string
  have "0 < rune_width (c # cs)"
    by (rule rune_width_pos)
  then have "length (drop (rune_width (c # cs)) (c # cs)) < length (c # cs)"
    by simp
  then show "((k, new, drop (rune_width (c # cs)) (c # cs)), (Suc k, new, c # cs))
               \<in> measure (\<lambda>(k, new, s). length s)"
    by simp
qed

definition Replace :: "string \<Rightarrow> string \<Rightarrow> string \<Rightarrow> int \<Rightarrow> string" where
  "Replace s old new n =
     (if old = [] then
        (if n = 0 then s
         else new @ runes_sep_upto (if n < 0 then length s else nat n - 1) new s)
      else if n < 0 then replace_all old new s
      else replace_upto (nat n) old new s)"

text \<open>
  \<open>marker_ends old B s\<close>: every occurrence of \<open>old\<close> in \<open>s\<close> is followed by the end of \<open>s\<close>
  or by a character outside \<open>B\<close>.
\<close>

fun fresh :: "char set \<Rightarrow> string \<Rightarrow> bool" where
  "fresh B [] = True"
| "fresh B (x # xs) = (x \<notin> B)"

fun marker_ends :: "string \<Rightarrow> char set \<Rightarrow> string \<Rightarrow> bool" where
  "marker_ends old B [] = True"
| "marker_ends old B (c # cs) =
     ((prefix old (c # cs) \<longrightarrow> fresh B (drop (length old) (c # cs))) \<and> marker_ends old B cs)"

fun SplitN2_first :: "string \<Rightarrow> string \<Rightarrow> string" where
  \<comment> \<open>\<open>strings.SplitN(s, sep, 2)[0]\<close> for a non-empty \<open>sep\<close>: the text before its first occurrence\<close>
  "SplitN2_first [] sep = []"
| "SplitN2_first (c # cs) sep =
     (if prefix sep (c # cs) then [] else c # SplitN2_first cs sep)"

fun Join :: "string list \<Rightarrow> string \<Rightarrow> string" where
  \<comment> \<open>\<open>strings.Join\<close>; \<open>%s\<close> prints a \<open>[]string\<close> as its elements joined by spaces, in brackets\<close>
  "Join [] sep = []"
| "Join [x] sep = x"
| "Join (x # y # ys) sep = x @ sep @ Join (y # ys) sep"

definition fmt_strings :: "string list \<Rightarrow> string" where
  "fmt_strings xs = ''['' @ Join xs '' '' @ '']''"

definition fmt_bool :: "bool \<Rightarrow> string" where
  "fmt_bool b = (if b then ''true'' else ''false'')"

definition TrimSuffix :: "string \<Rightarrow> string \<Rightarrow> string" where
  \<comment> \<open>\<open>strings.TrimSuffix\<close>\<close>
  "TrimSuffix s suf = (if suffix suf s then take (length s - length suf) s else s)"

text \<open>
  A \<open>bytes.Reader\<close> is a read position over a byte slice that it never writes to.
  \<open>ReadAll\<close> returns what is left and moves the position to the end.
\<close>

record Reader =
  buf :: bytes
  off :: nat

definition NewReader :: "bytes \<Rightarrow> Reader" where
  "NewReader b = \<lparr>buf = b, off = 0\<rparr>"

definition ReadAll :: "Reader \<Rightarrow> bytes \<times> Reader" where
  "ReadAll r = (drop (off r) (buf r), r\<lparr>off := max (off r) (length (buf r))\<rparr>)"

section \<open>The statement specifications and the collaborators\<close>

text \<open>
  \<open>stmtSpec\<close> of \<open>generate/main.go\<close>. The fields \<open>replace\<close> and \<open>regreplace\<close> are Go maps:
  the record holds their entries as the map literal lists them, and the order in which a
  \<open>range\<close> loop visits them is a separate input of the worker (Go leaves it unspecified),
  any arrangement of the same entries.
\<close>

record stmtSpec =
  name :: string
  stmt :: string
  inline :: "string list"
  replace :: "(string \<times> string) list"
  regreplace :: "(string \<times> string) list"
  match :: "regexp list"
  exclude :: "regexp list"
  unlink :: "string list"
  nosplit :: bool

definition range_order :: "(string \<times> string) list \<Rightarrow> (string \<times> string) list \<Rightarrow> bool" where
  "range_order m ord = (mset ord = mset m)"

text \<open>
  The package \<open>extract\<close>, the regular-expression engine, \<open>filepath.Join\<close> and the file
  system are outside \<open>main.go\<close>: they are parameters of the model. A Go function returning
  \<open>(value, error)\<close> is a function to a pair whose second component is \<open>None\<close> for \<open>nil\<close>.
  \<open>'g\<close> is the type of parsed grammars.
\<close>

record 'g extern =
  GenerateBNF :: "string \<Rightarrow> bytes \<times> error option"
  ParseGrammar :: "bytes \<Rightarrow> 'g \<times> error option"
  Inline :: "'g \<Rightarrow> string list \<Rightarrow> 'g \<times> error option"
  ExtractProduction ::
    "'g \<Rightarrow> string \<Rightarrow> bool \<Rightarrow> bool \<Rightarrow> regexp list \<Rightarrow> regexp list \<Rightarrow> bytes \<times> error option"
  GenerateRR :: "bytes \<Rightarrow> bytes \<times> error option"
  XHTMLtoHTML :: "bytes \<Rightarrow> string \<times> error option"
  ExtractTag :: "bytes \<Rightarrow> string \<Rightarrow> string \<times> error option"
  InnerTag :: "bytes \<Rightarrow> string \<Rightarrow> string \<times> error option"
  regexp_compiles :: "string \<Rightarrow> bool"
  regexp_ReplaceAll :: "string \<Rightarrow> string \<Rightarrow> string \<Rightarrow> string"
  filepath_Join :: "string \<Rightarrow> string \<Rightarrow> string"
  WriteFile_error :: "string \<Rightarrow> bytes \<Rightarrow> error option"

text \<open>
  What a goroutine does that can be seen from outside, in program order: log lines, standard
  output, the calls of the four pipeline stages, the file it writes, and the two ways it
  ends the whole process (\<open>log.Fatal\<close> prints and calls \<open>os.Exit(1)\<close>; an uncaught panic
  crashes the program).
\<close>

datatype event =
    Log string
  | Stdout string
  | Parse bytes
  | InlineCall "string list"
  | Extract string bool bool "regexp list" "regexp list"
  | Render bytes
  | WriteFile string bytes
  | Fatal string
  | Panic string

fun terminal :: "event \<Rightarrow> bool" where
  "terminal (Fatal m) = True"
| "terminal (Panic m) = True"
| "terminal e = False"

definition nl :: string where
  "nl = [CHR 0x0A]"

section \<open>\<open>runParse\<close> and \<open>runRR\<close>\<close>

definition runParse ::
  "'g extern \<Rightarrow> Reader \<Rightarrow> string list \<Rightarrow> string \<Rightarrow> bool \<Rightarrow> bool \<Rightarrow> regexp list \<Rightarrow> regexp list
     \<Rightarrow> event list \<times> (bytes \<times> error option) option" where
  \<comment> \<open>the second component is \<open>None\<close> when \<open>log.Fatal\<close> ended the process inside \<open>runParse\<close>\<close>
  "runParse X r inl topStmt descend nosplt mtch excl =
     (let l = Log (''parse: '' @ topStmt @ '', inline: '' @ fmt_strings inl
                     @ '', descend: '' @ fmt_bool descend);
          src = fst (ReadAll r)
      in case ParseGrammar X src of
           (g, Some e) \<Rightarrow> ([l, Parse src, Fatal e], None)
         | (g, None) \<Rightarrow>
             (case Inline X g inl of
                (g', Some e) \<Rightarrow> ([l, Parse src, InlineCall inl, Fatal e], None)
              | (g', None) \<Rightarrow>
                  (case ExtractProduction X g' topStmt descend nosplt mtch excl of
                     (b, err) \<Rightarrow>
                       let b1 = Replace b ''IDENT'' ''identifier'' (- 1);
                           b2 = Replace b1 ''_LA'' [] (- 1)
                       in ([l, Parse src, InlineCall inl,
                            Extract topStmt descend nosplt mtch excl], Some (b2, err)))))"

definition runRR :: "'g extern \<Rightarrow> string \<Rightarrow> Reader \<Rightarrow> event list \<times> bytes \<times> error option" where
  "runRR X nm r =
     (let b = fst (ReadAll r)
      in case GenerateRR X b of
           (html, Some e) \<Rightarrow> ([Render b], [], Some e)
         | (html, None) \<Rightarrow>
             (case XHTMLtoHTML X html of
                (s, err) \<Rightarrow> ([Render b, Log (nm @ '': generated railroad diagram'')], s, err)))"

section \<open>The text fix-ups of a statement worker\<close>

fun apply_replace :: "(string \<times> string) list \<Rightarrow> bytes \<Rightarrow> bytes" where
  \<comment> \<open>\<open>for from, to := range s.replace { g = bytes.Replace(g, from, to, -1) }\<close>,
      the entries in the order the loop visits them\<close>
  "apply_replace [] g = g"
| "apply_replace ((f, t) # rest) g = apply_replace rest (Replace g f t (- 1))"

fun apply_regreplace :: "'g extern \<Rightarrow> (string \<times> string) list \<Rightarrow> bytes \<Rightarrow> string + bytes" where
  \<comment> \<open>\<open>regexp.MustCompile\<close> panics on a pattern that does not compile: \<open>Inl\<close> of that pattern\<close>
  "apply_regreplace X [] g = Inr g"
| "apply_regreplace X ((f, t) # rest) g =
     (if regexp_compiles X f then apply_regreplace X rest (regexp_ReplaceAll X f g t)
      else Inl f)"

text \<open>
  The pattern that removes the links to \<open>u\<close> is built by the program itself: the opening tag
  of the link, a shortest run of arbitrary characters, and \<open></a>\<close>. When \<open>u\<close> is made of
  letters, digits and underscores, the opening tag is literal text but for the dot of
  \<open>sql-grammar.html\<close>, which in a pattern stands for any one character other than a newline.
  \<open>ReplaceAllString(body, "$1")\<close> is then the scan \<open>strip_links\<close>: at the leftmost opening
  tag that has a \<open></a>\<close> after it, keep what lies between the tag and the nearest \<open></a>\<close>,
  and go on behind that \<open></a>\<close>. For any other \<open>u\<close> the engine is asked.
\<close>

definition link_open :: "string \<Rightarrow> string" where
  \<open>link_open u = ''<a xlink:href="sql-grammar.html#'' @ u @ ''" xlink:title="'' @ u @ ''">''\<close>

definition link_close :: string where
  "link_close = ''</a>''"

definition link_pattern :: "string \<Rightarrow> string" where
  "link_pattern u = link_open u @ ''((?s).*?)'' @ link_close"

definition open_head :: string where
  \<comment> \<open>the opening tag up to the dot\<close>
  \<open>open_head = ''<a xlink:href="sql-grammar''\<close>

definition open_tail :: "string \<Rightarrow> string" where
  \<comment> \<open>the opening tag behind the dot\<close>
  \<open>open_tail u = ''html#'' @ u @ ''" xlink:title="'' @ u @ ''">''\<close>

definition open_rest :: "string \<Rightarrow> string \<Rightarrow> string option" where
  \<comment> \<open>what follows an opening tag for \<open>u\<close> at the start of \<open>s\<close>, when there is one\<close>
  "open_rest u s =
     (if prefix open_head s then
        (let t = drop (length open_head) s; w = rune_width t
         in if w = 0 \<or> take w t = [CHR 0x0A] then None
            else if prefix (open_tail u) (drop w t)
              then Some (drop (w + length (open_tail u)) t)
            else None)
      else None)"

definition word_char :: "char \<Rightarrow> bool" where
  "word_char c =
     (c \<in> set ''abcdefghijklmnopqrstuvwxyzABCDEFGHIJKLMNOPQRSTUVWXYZ0123456789_'')"

fun Cut :: "string \<Rightarrow> string \<Rightarrow> (string \<times> string) option" where
  \<comment> \<open>the text before and after the first occurrence of \<open>sep\<close>\<close>
  "Cut [] sep = (if sep = [] then Some ([], []) else None)"
| "Cut (c # cs) sep =
     (if prefix sep (c # cs) then Some ([], drop (length sep) (c # cs))
      else (case Cut cs sep of None \<Rightarrow> None | Some (a, b) \<Rightarrow> Some (c # a, b)))"

lemma Cut_length: "Cut s sep = Some (a, b) \<Longrightarrow> length a + length sep + length b = length s"
proof (induction s arbitrary: a)
  case Nil
  then show ?case
    by (simp split: if_splits)
next
  case (Cons c cs)
  show ?case
  proof (cases "prefix sep (c # cs)")
    case True
    then obtain zs where zs: "c # cs = sep @ zs"
      by (auto simp: prefix_def)
    from True Cons.prems have "a = []" and "b = drop (length sep) (c # cs)"
      by auto
    with zs have "a = []" and "b = zs"
      by simp_all
    moreover from zs have "length (c # cs) = length sep + length zs"
      by (metis length_append)
    ultimately show ?thesis
      by simp
  next
    case False
    with Cons.prems obtain a' where "Cut cs sep = Some (a', b)" and "a = c # a'"
      by (auto split: option.splits)
    with Cons.IH [of a'] show ?thesis
      by simp
  qed
qed

lemma open_rest_length: "open_rest u s = Some t \<Longrightarrow> length t < length s"
  by (auto simp: open_rest_def Let_def open_head_def prefix_def split: if_splits)

function strip_links :: "string \<Rightarrow> string \<Rightarrow> string" where
  "strip_links u [] = []"
| "strip_links u (c # cs) =
     (case open_rest u (c # cs) of
        None \<Rightarrow> c # strip_links u cs
      | Some t \<Rightarrow>
          (case Cut t link_close of
             Some (inner, rest) \<Rightarrow> inner @ strip_links u rest
           | None \<Rightarrow> c # strip_links u cs))"
  by pat_completeness auto
termination
proof (relation "measure (\<lambda>(u, s). length s)")
  show "wf (measure (\<lambda>(u, s). length s))"
    by simp
next
  fix u :: string and c :: char and cs t inner rest :: string and x2 :: "string \<times> string"
  assume o: "open_rest u (c # cs) = Some t"
    and "Cut t link_close = Some x2" and "(inner, rest) = x2"
  then have "Cut t link_close = Some (inner, rest)"
    by simp
  from Cut_length [OF this] open_rest_length [OF o] have "length rest < length (c # cs)"
    by simp
  then show "((u, rest), (u, c # cs)) \<in> measure (\<lambda>(u, s). length s)"
    by simp
qed simp_all

fun apply_unlink :: "'g extern \<Rightarrow> string list \<Rightarrow> string \<Rightarrow> string + string" where
  "apply_unlink X [] body = Inr body"
| "apply_unlink X (u # us) body =
     (if list_all word_char u then apply_unlink X us (strip_links u body)
      else if regexp_compiles X (link_pattern u)
        then apply_unlink X us (regexp_ReplaceAll X (link_pattern u) body ''$1'')
      else Inl (link_pattern u))"

section \<open>Markup as text and links\<close>

text \<open>
  The diagram that the renderer returns, seen as the worker treats it: stretches of text,
  and links \<open><a xlink:href="#v" xlink:title="v">\<close> \<dots> \<open></a>\<close> to productions \<open>v\<close>.
  \<open>render_raw\<close> writes a document as the renderer does, \<open>render\<close> with the link targets
  already pointing into \<open>sql-grammar.html\<close>. A document is flat when no text and no link
  content holds \<open><a\<close> or ends in \<open><\<close>, no link content holds \<open></a>\<close>, and no link target
  holds a double quote (the character that ends the attribute): links do not nest, and
  nothing but a link looks like one.
\<close>

datatype node = Text string | Link string string

definition raw_open :: "string \<Rightarrow> string" where
  \<open>raw_open v = ''<a xlink:href="#'' @ v @ ''" xlink:title="'' @ v @ ''">''\<close>

fun render_raw_node :: "node \<Rightarrow> string" where
  "render_raw_node (Text t) = t"
| "render_raw_node (Link v inner) = raw_open v @ inner @ link_close"

definition render_raw :: "node list \<Rightarrow> string" where
  "render_raw doc = concat (map render_raw_node doc)"

fun render_node :: "node \<Rightarrow> string" where
  "render_node (Text t) = t"
| "render_node (Link v inner) = link_open v @ inner @ link_close"

definition render :: "node list \<Rightarrow> string" where
  "render doc = concat (map render_node doc)"

fun no_open :: "string \<Rightarrow> bool" where
  "no_open [] = True"
| "no_open [c] = (c \<noteq> CHR ''<'')"
| "no_open (c # d # cs) = ((c = CHR ''<'' \<longrightarrow> d \<noteq> CHR ''a'') \<and> no_open (d # cs))"

fun flat_node :: "node \<Rightarrow> bool" where
  "flat_node (Text t) = no_open t"
| "flat_node (Link v inner) =
     (CHR 0x22 \<notin> set v \<and> no_open inner \<and> \<not> sublist link_close inner)"

fun is_link_to :: "string \<Rightarrow> node \<Rightarrow> bool" where
  "is_link_to u (Text t) = False"
| "is_link_to u (Link v inner) = (v = u)"

fun remove_link :: "string \<Rightarrow> node \<Rightarrow> node" where
  \<comment> \<open>a link to \<open>u\<close> gives way to its content, in place\<close>
  "remove_link u (Text t) = Text t"
| "remove_link u (Link v inner) = (if v = u then Text inner else Link v inner)"

fun remove_links :: "string list \<Rightarrow> node list \<Rightarrow> node list" where
  "remove_links [] doc = doc"
| "remove_links (u # us) doc = remove_links us (map (remove_link u) doc)"

fun skips :: "string \<Rightarrow> string \<Rightarrow> string \<Rightarrow> bool" where
  \<comment> \<open>\<open>opn\<close> starts at no position of \<open>w\<close> in the text \<open>w @ R\<close>\<close>
  "skips opn [] R = True"
| "skips opn (c # w) R = (\<not> prefix opn (c # w @ R) \<and> skips opn w R)"

section \<open>The workers of the \<open>generate\<close> command\<close>

definition link_local :: string where
  \<open>link_local = ''<a xlink:href="#''\<close>

definition link_global :: string where
  \<open>link_global = ''<a xlink:href="sql-grammar.html#''\<close>

definition generated_by :: string where
  \<open>generated_by =
     ''<p>generated by <a href="http://www.bottlecaps.de/rr/ui">Railroad Diagram Generator</a></p>''\<close>

definition out_path :: "'g extern \<Rightarrow> string \<Rightarrow> stmtSpec \<Rightarrow> string" where
  "out_path X baseDir s =
     filepath_Join X baseDir (Replace (name s) ''_stmt'' [] 1 @ ''.html'')"


definition render_and_write :: "'g extern \<Rightarrow> string \<Rightarrow> stmtSpec \<Rightarrow> bytes \<Rightarrow> event list" where
  \<comment> \<open>from the call of \<open>runRR\<close> to the end of the goroutine\<close>
  "render_and_write X baseDir s g =
     (case runRR X (name s) (NewReader g) of
        (tr, rr, Some err) \<Rightarrow> tr @ [Fatal (name s @ '': '' @ err @ nl @ g)]
      | (tr, rr, None) \<Rightarrow>
          (case ExtractTag X rr ''svg'' of
             (body, Some err) \<Rightarrow> tr @ [Fatal (name s @ err)]
           | (body, None) \<Rightarrow>
               (case apply_unlink X (unlink s) (Replace body link_local link_global (- 1)) of
                  Inl pat \<Rightarrow> tr @ [Panic pat]
                | Inr body' \<Rightarrow>
                    (case WriteFile_error X (out_path X baseDir s) body' of
                       Some err \<Rightarrow> tr @ [Fatal (name s @ err)]
                     | None \<Rightarrow> tr @ [WriteFile (out_path X baseDir s) body']))))"

definition stmt_worker ::
  "'g extern \<Rightarrow> bytes \<Rightarrow> string \<Rightarrow> bool \<Rightarrow> string
     \<Rightarrow> (string \<times> string) list \<times> (string \<times> string) list \<Rightarrow> stmtSpec \<Rightarrow> event list" where
  \<comment> \<open>the goroutine started for each element of \<open>specs\<close>; \<open>ord\<close> gives the orders in which
      its two \<open>range\<close> loops visit \<open>s.replace\<close> and \<open>s.regreplace\<close>\<close>
  "stmt_worker X bnf flt printBNF baseDir ord s0 =
     (if flt \<noteq> [] \<and> flt \<noteq> name s0 then []
      else
        let s = (if stmt s0 = [] then s0\<lparr>stmt := name s0\<rparr> else s0)
        in (case runParse X (NewReader bnf) (inline s) (stmt s) False (nosplit s)
                   (match s) (exclude s) of
              (tr, None) \<Rightarrow> tr
            | (tr, Some (g, Some err)) \<Rightarrow> tr @ [Fatal (name s @ '': '' @ err @ nl @ g)]
            | (tr, Some (g, None)) \<Rightarrow>
                (let pre = (if printBNF
                            then [Stdout (name s @ '': (PRE REPLACE)'' @ nl @ nl @ g @ nl)]
                            else [])
                 in (case apply_regreplace X (snd ord) (apply_replace (fst ord) g) of
                       Inl pat \<Rightarrow> tr @ pre @ [Panic pat]
                     | Inr g' \<Rightarrow>
                         if printBNF
                         then tr @ pre
                                @ [Stdout (name s @ '': (POST REPLACE)'' @ nl @ nl @ g' @ nl)]
                         else tr @ pre @ render_and_write X baseDir s g'))))"

definition stmt_block_worker ::
  "'g extern \<Rightarrow> bytes \<Rightarrow> string \<Rightarrow> bool \<Rightarrow> string \<Rightarrow> event list" where
  \<comment> \<open>the goroutine for the overview diagram of the whole grammar\<close>
  "stmt_block_worker X bnf flt printBNF baseDir =
     (if flt \<noteq> [] \<and> flt \<noteq> ''stmt_block'' then []
      else
        case runParse X (NewReader bnf) [] ''stmt_block'' True True [] [] of
          (tr, None) \<Rightarrow> tr
        | (tr, Some (g, Some err)) \<Rightarrow> tr @ [Fatal err]
        | (tr, Some (g, None)) \<Rightarrow>
            if printBNF then tr @ [Stdout (''stmt_block:'' @ nl @ nl @ g @ nl)]
            else
              (case runRR X ''stmt_block'' (NewReader g) of
                 (tr2, rr, Some err) \<Rightarrow> tr @ tr2 @ [Fatal err]
               | (tr2, rr, None) \<Rightarrow>
                   (case InnerTag X rr ''body'' of
                      (body, Some err) \<Rightarrow> tr @ tr2 @ [Fatal err]
                    | (body, None) \<Rightarrow>
                        (let body' = ''<div>'' @ SplitN2_first body ''<hr/>'' @ generated_by
                                       @ ''</div>'';
                             path = filepath_Join X baseDir ''grammar.html''
                         in (case WriteFile_error X path body' of
                               Some err \<Rightarrow> tr @ tr2 @ [Fatal err]
                             | None \<Rightarrow> tr @ tr2 @ [WriteFile path body'])))))"

definition workers ::
  "'g extern \<Rightarrow> bytes \<Rightarrow> string \<Rightarrow> bool \<Rightarrow> string
     \<Rightarrow> (nat \<Rightarrow> (string \<times> string) list \<times> (string \<times> string) list) \<Rightarrow> stmtSpec list
     \<Rightarrow> event list list" where
  \<comment> \<open>worker 0 draws the overview, worker \<open>k + 1\<close> runs \<open>specs ! k\<close>\<close>
  "workers X bnf flt printBNF baseDir ords specs =
     stmt_block_worker X bnf flt printBNF baseDir
       # map (\<lambda>k. stmt_worker X bnf flt printBNF baseDir (ords k) (specs ! k))
           [0 ..< length specs]"

section \<open>Running the goroutines\<close>

text \<open>
  The goroutines run concurrently. A schedule is the sequence of worker numbers in the order
  in which they perform their next event; a number whose worker has finished, or that names
  no worker, passes. The run ends with the first \<open>Fatal\<close> or \<open>Panic\<close>: the process is gone,
  and whatever the schedule holds after it never happens. The result is the sequence of
  events performed, each with the number of its worker.
\<close>

fun exec :: "nat list \<Rightarrow> event list list \<Rightarrow> (nat \<times> event) list" where
  "exec [] ws = []"
| "exec (i # sched) ws =
     (if i < length ws then
        (case ws ! i of
           [] \<Rightarrow> exec sched ws
         | e # es \<Rightarrow>
             if terminal e then [(i, e)] else (i, e) # exec sched (ws[i := es]))
      else exec sched ws)"

definition complete :: "nat list \<Rightarrow> event list list \<Rightarrow> bool" where
  \<comment> \<open>every worker is scheduled often enough to perform all of its events\<close>
  "complete sched ws = (\<forall>k < length ws. length (ws ! k) \<le> count_list sched k)"

fun files_of :: "(nat \<times> event) list \<Rightarrow> (string \<rightharpoonup> bytes)" where
  \<comment> \<open>the files the run has written, the base directory being empty before\<close>
  "files_of [] = Map.empty"
| "files_of ((i, e) # tr) =
     (case e of
        WriteFile p b \<Rightarrow> (if p \<in> dom (files_of tr) then files_of tr else (files_of tr)(p \<mapsto> b))
      | _ \<Rightarrow> files_of tr)"

definition events_of :: "nat \<Rightarrow> (nat \<times> event) list \<Rightarrow> event list" where
  \<comment> \<open>what worker \<open>k\<close> has performed in a run\<close>
  "events_of k tr = map snd (filter (\<lambda>(j, e). j = k) tr)"

definition runBNF :: "'g extern \<Rightarrow> string \<Rightarrow> event list \<times> bytes \<times> error option" where
  "runBNF X addr = ([Log (''generate BNF: '' @ addr)], GenerateBNF X addr)"

definition Run ::
  "'g extern \<Rightarrow> string \<Rightarrow> string \<Rightarrow> bool \<Rightarrow> string
     \<Rightarrow> (nat \<Rightarrow> (string \<times> string) list \<times> (string \<times> string) list) \<Rightarrow> stmtSpec list
     \<Rightarrow> nat list \<Rightarrow> event list" where
  \<comment> \<open>\<open>rootCmd.Run\<close>: fetch the grammar, start the workers, wait for all of them\<close>
  "Run X addr flt printBNF baseDir ords specs sched =
     (case runBNF X addr of
        (tr, bnf, Some e) \<Rightarrow> tr @ [Fatal e]
      | (tr, bnf, None) \<Rightarrow>
          tr @ map snd (exec sched (workers X bnf flt printBNF baseDir ords specs)))"

section \<open>A small instance to run the model on\<close>

text \<open>
  Collaborators that can be evaluated: a grammar is its own source text, the production
  \<open>missing\<close> does not exist (extraction fails there, with a partial fragment),
  \<open>truncate_stmt\<close> extracts to a rule with two of the alternatives that the SQL grammar
  has for the table of \<open>TRUNCATE\<close>, every other root extracts to one rule, rendering wraps
  the fragment in an \<open>svg\<close> element, and the file system accepts every write.
\<close>

definition demo_extern :: "string extern" where
  "demo_extern =
     \<lparr>GenerateBNF = (\<lambda>addr. (''stmt_block ::= stmt'', None)),
      ParseGrammar = (\<lambda>src. (src, if src = [] then Some ''syntax error'' else None)),
      Inline = (\<lambda>g ns. (g, None)),
      ExtractProduction = (\<lambda>g root d n m e.
         if root = ''missing'' then (''IDENT_LA'', Some ''unknown production'')
         else if root = ''truncate_stmt'' then
           (''truncate_stmt ::= 'TRUNCATE' ( qualified_name | 'ONLY' qualified_name )'', None)
         else (root @ '' ::= IDENT NOT_LA'', None)),
      GenerateRR = (\<lambda>b. (''<svg>'' @ b @ ''</svg>'', None)),
      XHTMLtoHTML = (\<lambda>h. (h, None)),
      ExtractTag = (\<lambda>b t. (b, None)),
      InnerTag = (\<lambda>b t. (b, None)),
      regexp_compiles = (\<lambda>p. True),
      regexp_ReplaceAll = (\<lambda>p s r. s),
      filepath_Join = (\<lambda>d f. d @ ''/'' @ f),
      WriteFile_error = (\<lambda>p b. None)\<rparr>"

definition mk_spec :: "string \<Rightarrow> string \<Rightarrow> stmtSpec" where
  \<comment> \<open>the specification \<open>{name: n, stmt: st}\<close>, every other field at its zero value\<close>
  "mk_spec n st =
     \<lparr>name = n, stmt = st, inline = [], replace = [], regreplace = [],
      match = [], exclude = [], unlink = [], nosplit = False\<rparr>"

definition truncate_stmt_spec :: stmtSpec where
  \<comment> \<open>the element \<open>truncate_stmt\<close> of the list \<open>specs\<close> in \<open>main.go\<close>\<close>
  "truncate_stmt_spec =
     \<lparr>name = ''truncate_stmt'', stmt = [],
      inline = [''opt_table'', ''relation_expr_list'', ''relation_expr'', ''opt_drop_behavior''],
      replace =
        [('''ONLY' '(' qualified_name ')'' @ [CHR 0x27], []),
         ('''ONLY' qualified_name'', []),
         (''qualified_name'', ''table_name''),
         ('''*'' @ [CHR 0x27], []),
         ('''CASCADE'' @ [CHR 0x27], []),
         ('''RESTRICT'' @ [CHR 0x27], [])],
      regreplace = [], match = [], exclude = [], unlink = [''table_name''],
      nosplit = False\<rparr>"

definition spec_names :: "string list" where
  \<comment> \<open>the names of the elements of the list \<open>specs\<close> in \<open>main.go\<close>, in its order\<close>
  "spec_names =
     [''add_column'', ''alter_table_stmt'', ''begin_transaction'', ''column_def'',
      ''col_qual_list'', ''commit_transaction'', ''create_database_stmt'',
      ''create_index_stmt'', ''create_table_stmt'', ''delete_stmt'', ''drop_database'',
      ''drop_index'', ''drop_stmt'', ''drop_table'', ''explain_stmt'', ''family_def'',
      ''grant_stmt'', ''index_def'', ''insert_stmt'', ''iso_level'', ''release_savepoint'',
      ''rename_column'', ''rename_database'', ''rename_index'', ''rename_table'',
      ''revoke_stmt'', ''rollback_transaction'', ''savepoint_stmt'', ''select_stmt'',
      ''set_time_zone'', ''set_database'', ''set_transaction'', ''show_columns'',
      ''show_constraints'', ''show_create_table'', ''show_databases'', ''show_grants'',
      ''show_index'', ''show_keys'', ''show_tables'', ''show_timezone'', ''show_transaction'',
      ''table_constraint'', ''truncate_stmt'', ''update_stmt'', ''upsert_stmt'']"

definition failing_extern :: "string extern" where
  \<comment> \<open>as \<open>demo_extern\<close>, for a grammar that has no production \<open>column_def\<close> and none named
      \<open>opt_name\<close> to inline, and a renderer that rejects the fragment of \<open>explain_stmt\<close>\<close>
  "failing_extern =
     demo_extern
       \<lparr>Inline := (\<lambda>g ns. (g, if ''opt_name'' \<in> set ns
                                then Some ''unknown production: opt_name'' else None)),
        ExtractProduction := (\<lambda>g root d n m e.
           if root = ''column_def'' then ([], Some ''unknown production: column_def'')
           else ExtractProduction demo_extern g root d n m e),
        GenerateRR := (\<lambda>b. if prefix ''explain_stmt'' b then ([], Some ''bad status: 500'')
                           else GenerateRR demo_extern b)\<rparr>"

definition family_def_spec :: stmtSpec where
  \<comment> \<open>the element \<open>family_def\<close> of the list \<open>specs\<close> in \<open>main.go\<close>\<close>
  "family_def_spec = (mk_spec ''family_def'' [])\<lparr>inline := [''opt_name'', ''name_list'']\<rparr>"

definition explain_stmt_spec :: stmtSpec where
  \<comment> \<open>the element \<open>explain_stmt\<close> of the list \<open>specs\<close> in \<open>main.go\<close>\<close>
  "explain_stmt_spec =
     (mk_spec ''explain_stmt'' [])\<lparr>inline := [''explainable_stmt'', ''explain_option_list'']\<rparr>"

definition column_def_and_iso_level :: "stmtSpec list" where
  \<comment> \<open>the elements \<open>column_def\<close> and \<open>iso_level\<close> of the list \<open>specs\<close> in \<open>main.go\<close>\<close>
  "column_def_and_iso_level = [mk_spec ''column_def'' [], mk_spec ''iso_level'' []]"

definition file_names :: "string list" where
  \<comment> \<open>the names of the files that the workers of \<open>main.go\<close> write: the overview's and one
      for each element of \<open>specs\<close>\<close>
  "file_names =
     ''grammar.html'' # map (\<lambda>n. Replace n ''_stmt'' [] 1 @ ''.html'') spec_names"

definition two_valid :: "stmtSpec list" where
  \<comment> \<open>two specifications whose roots exist\<close>
  "two_valid = [mk_spec ''insert_stmt'' [], mk_spec ''drop_stmt'' []]"

definition no_order :: "nat \<Rightarrow> (string \<times> string) list \<times> (string \<times> string) list" where
  \<comment> \<open>the iteration orders of specifications whose two maps are empty\<close>
  "no_order k = ([], [])"

definition listed_order :: "nat \<Rightarrow> (string \<times> string) list \<times> (string \<times> string) list" where
  \<comment> \<open>the \<open>range\<close> loops visit the maps of \<open>truncate_stmt\<close> as the literal lists them\<close>
  "listed_order k = (replace truncate_stmt_spec, regreplace truncate_stmt_spec)"

definition rotated_order :: "nat \<Rightarrow> (string \<times> string) list \<times> (string \<times> string) list" where
  \<comment> \<open>the \<open>range\<close> loop over \<open>replace\<close> starts at the third entry\<close>
  "rotated_order k = (rotate 2 (replace truncate_stmt_spec), regreplace truncate_stmt_spec)"

definition nested_links :: string where
  \<comment> \<open>a link to \<open>table_name\<close> inside a link to \<open>table_name\<close>\<close>
  "nested_links =
     raw_open ''table_name'' @ raw_open ''table_name'' @ ''x'' @ link_close @ link_close"

definition sample_links :: "node list" where
  "sample_links =
     [Link ''table_name'' ''<text>table_name</text>'', Text ''<path/>'',
      Link ''opt_drop_behavior'' ''<text>opt_drop_behavior</text>'']"

definition sample_doc :: "node list" where
  "sample_doc = Text ''<svg>'' # sample_links @ [Text ''</svg>'']"

section \<open>\<open>runParse\<close> returns the fragment together with the error\<close>

text \<open>
  C10: when the grammar parses, inlining succeeds and \<open>ExtractProduction\<close> returns bytes
  \<open>b\<close> together with an error, \<open>runParse\<close> does not end the process and does not drop \<open>b\<close>:
  it returns \<open>b\<close> with both token rewrites applied (\<open>IDENT\<close> to \<open>identifier\<close>, then \<open>_LA\<close>
  removed), paired with that same error.
\<close>

theorem runParse_returns_fragment_with_error:
  assumes "ParseGrammar X (fst (ReadAll r)) = (g, None)"
    and "Inline X g inl = (g', None)"
    and "ExtractProduction X g' topStmt descend nosplt mtch excl = (b, Some e)"
  shows "snd (runParse X r inl topStmt descend nosplt mtch excl)
           = Some (Replace (Replace b ''IDENT'' ''identifier'' (- 1)) ''_LA'' [] (- 1), Some e)"
  using assms by (simp add: runParse_def Let_def)

theorem runParse_returns_fragment_with_error_witness:
  "snd (runParse demo_extern (NewReader ''g'') [] ''missing'' False False [] [])
     = Some (''identifier'', Some ''unknown production'')"
  using runParse_returns_fragment_with_error
          [of demo_extern "NewReader ''g''" "''g''" "[]" "''g''" "''missing''" False False
              "[]" "[]" "''IDENT_LA''" "''unknown production''"]
  by (simp add: demo_extern_def NewReader_def ReadAll_def Replace_def)

text \<open>
  The caller puts the fragment it got back into the message of its \<open>log.Fatalf\<close>.
\<close>

lemma stmt_worker_reports_fragment:
  assumes "flt = [] \<or> flt = name s"
    and "snd (runParse X (NewReader bnf) (inline s) (if stmt s = [] then name s else stmt s)
                False (nosplit s) (match s) (exclude s)) = Some (g, Some e)"
  shows "last (stmt_worker X bnf flt printBNF baseDir ord s)
           = Fatal (name s @ '': '' @ e @ nl @ g)"
  using assms by (auto simp: stmt_worker_def Let_def split: prod.splits option.splits)

section \<open>Facts about the workers' traces\<close>

lemma ReadAll_NewReader: "fst (ReadAll (NewReader b)) = b"
  by (simp add: ReadAll_def NewReader_def)

lemma runRR_no_extract: "Extract a b c d e \<notin> set (fst (runRR X nm r))"
  by (simp add: runRR_def Let_def split: prod.splits option.splits)

lemma runRR_no_write: "WriteFile p b \<notin> set (fst (runRR X nm r))"
  by (simp add: runRR_def Let_def split: prod.splits option.splits)

lemma runParse_no_write: "WriteFile p b \<notin> set (fst (runParse X r i t d n m e))"
  by (simp add: runParse_def Let_def split: prod.splits option.splits)

lemma render_no_extract: "Extract a b c d e \<notin> set (render_and_write X baseDir s g)"
proof -
  obtain tr rr err where rr: "runRR X (name s) (NewReader g) = (tr, rr, err)"
    by (cases "runRR X (name s) (NewReader g)") auto
  with runRR_no_extract [of a b c d e X "name s" "NewReader g"]
  have "Extract a b c d e \<notin> set tr"
    by simp
  with rr show ?thesis
    by (auto simp: render_and_write_def split: prod.splits option.splits sum.splits)
qed

lemma render_and_write_stmt_update:
  "render_and_write X baseDir (s\<lparr>stmt := v\<rparr>) g = render_and_write X baseDir s g"
  by (simp add: render_and_write_def out_path_def
      cong: prod.case_cong option.case_cong sum.case_cong)


text \<open>
  The trace of a statement worker whose grammar parses and inlines, in terms of what
  \<open>ExtractProduction\<close> returns for its root.
\<close>

lemma stmt_worker_trace:
  assumes "flt = [] \<or> flt = name s"
    and "ParseGrammar X bnf = (g, None)"
    and "Inline X g (inline s) = (g', None)"
    and "ExtractProduction X g' (if stmt s = [] then name s else stmt s) False (nosplit s)
           (match s) (exclude s) = (b, err)"
    and "b' = Replace (Replace b ''IDENT'' ''identifier'' (- 1)) ''_LA'' [] (- 1)"
  shows "stmt_worker X bnf flt printBNF baseDir ord s
           = [Log (''parse: '' @ (if stmt s = [] then name s else stmt s) @ '', inline: ''
                     @ fmt_strings (inline s) @ '', descend: '' @ fmt_bool False),
              Parse bnf, InlineCall (inline s),
              Extract (if stmt s = [] then name s else stmt s) False (nosplit s) (match s)
                (exclude s)]
             @ (case err of
                  Some e \<Rightarrow> [Fatal (name s @ '': '' @ e @ nl @ b')]
                | None \<Rightarrow>
                    (if printBNF then [Stdout (name s @ '': (PRE REPLACE)'' @ nl @ nl @ b' @ nl)]
                     else [])
                    @ (case apply_regreplace X (snd ord) (apply_replace (fst ord) b') of
                         Inl pat \<Rightarrow> [Panic pat]
                       | Inr g2 \<Rightarrow>
                           if printBNF
                           then [Stdout (name s @ '': (POST REPLACE)'' @ nl @ nl @ g2 @ nl)]
                           else render_and_write X baseDir s g2))"
proof -
  let ?root = "if stmt s = [] then name s else stmt s"
  let ?s = "if stmt s = [] then s\<lparr>stmt := name s\<rparr> else s"
  let ?tr = "[Log (''parse: '' @ ?root @ '', inline: '' @ fmt_strings (inline s)
                     @ '', descend: '' @ fmt_bool False),
              Parse bnf, InlineCall (inline s),
              Extract ?root False (nosplit s) (match s) (exclude s)]"
  have s: "inline ?s = inline s" "stmt ?s = ?root" "nosplit ?s = nosplit s" "match ?s = match s"
    "exclude ?s = exclude s" "name ?s = name s"
    by simp_all
  from assms(2,3,4,5)
  have "runParse X (NewReader bnf) (inline s) ?root False (nosplit s) (match s) (exclude s)
          = (?tr, Some (b', err))"
    by (simp add: runParse_def Let_def ReadAll_NewReader)
  with s have rp:
    "runParse X (NewReader bnf) (inline ?s) (stmt ?s) False (nosplit ?s) (match ?s) (exclude ?s)
       = (?tr, Some (b', err))"
    by (simp only:)
  have rw: "render_and_write X baseDir ?s g2 = render_and_write X baseDir s g2" for g2
    by (simp add: render_and_write_stmt_update)
  from assms(1) have w: "stmt_worker X bnf flt printBNF baseDir ord s =
      (case err of
         Some e \<Rightarrow> ?tr @ [Fatal (name s @ '': '' @ e @ nl @ b')]
       | None \<Rightarrow>
           (let pre = (if printBNF
                       then [Stdout (name s @ '': (PRE REPLACE)'' @ nl @ nl @ b' @ nl)]
                       else [])
            in (case apply_regreplace X (snd ord) (apply_replace (fst ord) b') of
                  Inl pat \<Rightarrow> ?tr @ pre @ [Panic pat]
                | Inr g2 \<Rightarrow>
                    if printBNF
                    then ?tr @ pre
                           @ [Stdout (name s @ '': (POST REPLACE)'' @ nl @ nl @ g2 @ nl)]
                    else ?tr @ pre @ render_and_write X baseDir s g2)))"
    unfolding stmt_worker_def Let_def rp
    by (simp only: s rw prod.case option.case) (auto split: option.splits)
  show ?thesis
  proof (cases err)
    case (Some e)
    with w show ?thesis
      by simp
  next
    case None
    show ?thesis
    proof (cases "apply_regreplace X (snd ord) (apply_replace (fst ord) b')")
      case (Inl pat)
      with w None show ?thesis
        by (simp add: Let_def)
    next
      case (Inr g2)
      with w None show ?thesis
        by (simp add: Let_def)
    qed
  qed
qed

section \<open>The root production\<close>

lemma mk_spec_sel:
  "name (mk_spec n st) = n" "stmt (mk_spec n st) = st" "inline (mk_spec n st) = []"
  "match (mk_spec n st) = []" "exclude (mk_spec n st) = []" "nosplit (mk_spec n st) = False"
  by (simp_all add: mk_spec_def)

text \<open>
  C7: a worker that is not filtered out, whose grammar parses and inlines, extracts at the
  root \<open>s.stmt\<close>, or at \<open>s.name\<close> when \<open>s.stmt\<close> is empty, and at no other root: the bytes
  \<open>b\<close> that \<open>ExtractProduction\<close> returns for that root, with the two token rewrites applied,
  are the fragment that the worker goes on with. With an error it reports this fragment in
  its \<open>log.Fatalf\<close>; without, it prints it or applies its replacements to it and renders
  the result.
\<close>

theorem root_defaults_to_name:
  assumes "flt = [] \<or> flt = name s"
    and "ParseGrammar X bnf = (g, None)"
    and "Inline X g (inline s) = (g', None)"
    and "ExtractProduction X g' (if stmt s = [] then name s else stmt s) False (nosplit s)
           (match s) (exclude s) = (b, err)"
    and "b' = Replace (Replace b ''IDENT'' ''identifier'' (- 1)) ''_LA'' [] (- 1)"
  shows "stmt_worker X bnf flt printBNF baseDir ord s
           = [Log (''parse: '' @ (if stmt s = [] then name s else stmt s) @ '', inline: ''
                     @ fmt_strings (inline s) @ '', descend: '' @ fmt_bool False),
              Parse bnf, InlineCall (inline s),
              Extract (if stmt s = [] then name s else stmt s) False (nosplit s) (match s)
                (exclude s)]
             @ (case err of
                  Some e \<Rightarrow> [Fatal (name s @ '': '' @ e @ nl @ b')]
                | None \<Rightarrow>
                    (if printBNF then [Stdout (name s @ '': (PRE REPLACE)'' @ nl @ nl @ b' @ nl)]
                     else [])
                    @ (case apply_regreplace X (snd ord) (apply_replace (fst ord) b') of
                         Inl pat \<Rightarrow> [Panic pat]
                       | Inr g2 \<Rightarrow>
                           if printBNF
                           then [Stdout (name s @ '': (POST REPLACE)'' @ nl @ nl @ g2 @ nl)]
                           else render_and_write X baseDir s g2))
         \<and> (\<forall>root d n m e.
               Extract root d n m e \<in> set (stmt_worker X bnf flt printBNF baseDir ord s)
               \<longrightarrow> root = (if stmt s = [] then name s else stmt s))"
proof -
  let ?root = "if stmt s = [] then name s else stmt s"
  have eq: "stmt_worker X bnf flt printBNF baseDir ord s
           = [Log (''parse: '' @ (if stmt s = [] then name s else stmt s) @ '', inline: ''
                     @ fmt_strings (inline s) @ '', descend: '' @ fmt_bool False),
              Parse bnf, InlineCall (inline s),
              Extract (if stmt s = [] then name s else stmt s) False (nosplit s) (match s)
                (exclude s)]
             @ (case err of
                  Some e \<Rightarrow> [Fatal (name s @ '': '' @ e @ nl @ b')]
                | None \<Rightarrow>
                    (if printBNF then [Stdout (name s @ '': (PRE REPLACE)'' @ nl @ nl @ b' @ nl)]
                     else [])
                    @ (case apply_regreplace X (snd ord) (apply_replace (fst ord) b') of
                         Inl pat \<Rightarrow> [Panic pat]
                       | Inr g2 \<Rightarrow>
                           if printBNF
                           then [Stdout (name s @ '': (POST REPLACE)'' @ nl @ nl @ g2 @ nl)]
                           else render_and_write X baseDir s g2))"
  proof -
    let ?root = "if stmt s = [] then name s else stmt s"
    let ?s = "if stmt s = [] then s\<lparr>stmt := name s\<rparr> else s"
    let ?tr = "[Log (''parse: '' @ ?root @ '', inline: '' @ fmt_strings (inline s)
                       @ '', descend: '' @ fmt_bool False),
                Parse bnf, InlineCall (inline s),
                Extract ?root False (nosplit s) (match s) (exclude s)]"
    have s: "inline ?s = inline s" "stmt ?s = ?root" "nosplit ?s = nosplit s" "match ?s = match s"
      "exclude ?s = exclude s" "name ?s = name s"
      by simp_all
    from assms(2,3,4,5)
    have "runParse X (NewReader bnf) (inline s) ?root False (nosplit s) (match s) (exclude s)
            = (?tr, Some (b', err))"
      by (simp add: runParse_def Let_def ReadAll_NewReader)
    with s have rp:
      "runParse X (NewReader bnf) (inline ?s) (stmt ?s) False (nosplit ?s) (match ?s) (exclude ?s)
         = (?tr, Some (b', err))"
      by (simp only:)
    have rw: "render_and_write X baseDir ?s g2 = render_and_write X baseDir s g2" for g2
      by (simp add: render_and_write_stmt_update)
    from assms(1) have w: "stmt_worker X bnf flt printBNF baseDir ord s =
        (case err of
           Some e \<Rightarrow> ?tr @ [Fatal (name s @ '': '' @ e @ nl @ b')]
         | None \<Rightarrow>
             (let pre = (if printBNF
                         then [Stdout (name s @ '': (PRE REPLACE)'' @ nl @ nl @ b' @ nl)]
                         else [])
              in (case apply_regreplace X (snd ord) (apply_replace (fst ord) b') of
                    Inl pat \<Rightarrow> ?tr @ pre @ [Panic pat]
                  | Inr g2 \<Rightarrow>
                      if printBNF
                      then ?tr @ pre
                             @ [Stdout (name s @ '': (POST REPLACE)'' @ nl @ nl @ g2 @ nl)]
                      else ?tr @ pre @ render_and_write X baseDir s g2)))"
      unfolding stmt_worker_def Let_def rp
      by (simp only: s rw prod.case option.case) (auto split: option.splits)
    show ?thesis
    proof (cases err)
      case (Some e)
      with w show ?thesis
        by simp
    next
      case None
      show ?thesis
      proof (cases "apply_regreplace X (snd ord) (apply_replace (fst ord) b')")
        case (Inl pat)
        with w None show ?thesis
          by (simp add: Let_def)
      next
        case (Inr g2)
        with w None show ?thesis
          by (simp add: Let_def)
      qed
    qed
  qed
  have "root = ?root"
    if "Extract root d n m e \<in> set (stmt_worker X bnf flt printBNF baseDir ord s)"
    for root d n m e
  proof (cases err)
    case (Some x)
    with that eq show ?thesis
      by auto
  next
    case None
    with that eq render_no_extract [of root d n m e X baseDir s] show ?thesis
      by (auto split: sum.splits if_splits)
  qed
  with eq show ?thesis
    by blast
qed

theorem root_defaults_to_name_witness:
  "stmt_worker demo_extern ''g'' [] False ''out'' ([], []) (mk_spec ''drop_table'' [])
     = [Log ''parse: drop_table, inline: [], descend: false'', Parse ''g'', InlineCall [],
        Extract ''drop_table'' False False [] [], Render ''drop_table ::= identifier NOT'',
        Log ''drop_table: generated railroad diagram'',
        WriteFile ''out/drop_table.html'' ''<svg>drop_table ::= identifier NOT</svg>'']
   \<and> stmt_worker demo_extern ''g'' [] False ''out'' ([], []) (mk_spec ''drop_table'' ''drop_stmt'')
     = [Log ''parse: drop_stmt, inline: [], descend: false'', Parse ''g'', InlineCall [],
        Extract ''drop_stmt'' False False [] [], Render ''drop_stmt ::= identifier NOT'',
        Log ''drop_table: generated railroad diagram'',
        WriteFile ''out/drop_table.html'' ''<svg>drop_stmt ::= identifier NOT</svg>'']"
proof -
  have p: "ParseGrammar demo_extern ''g'' = (''g'', None)"
    by (simp add: demo_extern_def)
  have i: "Inline demo_extern ''g'' (inline (mk_spec n st)) = (''g'', None)" for n st
    by (simp add: demo_extern_def)
  have f: "[] = [] \<or> [] = name (mk_spec n st)" for n st
    by simp
  have e1: "ExtractProduction demo_extern ''g''
              (if stmt (mk_spec ''drop_table'' []) = [] then name (mk_spec ''drop_table'' [])
               else stmt (mk_spec ''drop_table'' []))
              False (nosplit (mk_spec ''drop_table'' [])) (match (mk_spec ''drop_table'' []))
              (exclude (mk_spec ''drop_table'' [])) = (''drop_table ::= IDENT NOT_LA'', None)"
    by (simp add: demo_extern_def mk_spec_sel)
  have e2: "ExtractProduction demo_extern ''g''
              (if stmt (mk_spec ''drop_table'' ''drop_stmt'') = []
               then name (mk_spec ''drop_table'' ''drop_stmt'')
               else stmt (mk_spec ''drop_table'' ''drop_stmt''))
              False (nosplit (mk_spec ''drop_table'' ''drop_stmt''))
              (match (mk_spec ''drop_table'' ''drop_stmt''))
              (exclude (mk_spec ''drop_table'' ''drop_stmt''))
            = (''drop_stmt ::= IDENT NOT_LA'', None)"
    by (simp add: demo_extern_def mk_spec_sel)
  have r1: "''drop_table ::= identifier NOT''
              = Replace (Replace ''drop_table ::= IDENT NOT_LA'' ''IDENT'' ''identifier'' (- 1))
                  ''_LA'' [] (- 1)"
    by code_simp
  have r2: "''drop_stmt ::= identifier NOT''
              = Replace (Replace ''drop_stmt ::= IDENT NOT_LA'' ''IDENT'' ''identifier'' (- 1))
                  ''_LA'' [] (- 1)"
    by code_simp
  have w1: "render_and_write demo_extern ''out'' (mk_spec ''drop_table'' [])
              ''drop_table ::= identifier NOT''
            = [Render ''drop_table ::= identifier NOT'',
               Log ''drop_table: generated railroad diagram'',
               WriteFile ''out/drop_table.html'' ''<svg>drop_table ::= identifier NOT</svg>'']"
    by code_simp
  have w2: "render_and_write demo_extern ''out'' (mk_spec ''drop_table'' ''drop_stmt'')
              ''drop_stmt ::= identifier NOT''
            = [Render ''drop_stmt ::= identifier NOT'',
               Log ''drop_table: generated railroad diagram'',
               WriteFile ''out/drop_table.html'' ''<svg>drop_stmt ::= identifier NOT</svg>'']"
    by code_simp
  have l: "fmt_strings [] = ''[]''" "fmt_bool False = ''false''"
    by code_simp+
  from root_defaults_to_name [OF f p i e1 r1, of False "''out''" "([], [])", THEN conjunct1]
  have a: "stmt_worker demo_extern ''g'' [] False ''out'' ([], []) (mk_spec ''drop_table'' [])
     = [Log ''parse: drop_table, inline: [], descend: false'', Parse ''g'', InlineCall [],
        Extract ''drop_table'' False False [] [], Render ''drop_table ::= identifier NOT'',
        Log ''drop_table: generated railroad diagram'',
        WriteFile ''out/drop_table.html'' ''<svg>drop_table ::= identifier NOT</svg>'']"
    by (simp add: mk_spec_sel w1 l)
  from root_defaults_to_name [OF f p i e2 r2, of False "''out''" "([], [])", THEN conjunct1]
  have b: "stmt_worker demo_extern ''g'' [] False ''out'' ([], [])
             (mk_spec ''drop_table'' ''drop_stmt'')
     = [Log ''parse: drop_stmt, inline: [], descend: false'', Parse ''g'', InlineCall [],
        Extract ''drop_stmt'' False False [] [], Render ''drop_stmt ::= identifier NOT'',
        Log ''drop_table: generated railroad diagram'',
        WriteFile ''out/drop_table.html'' ''<svg>drop_stmt ::= identifier NOT</svg>'']"
    by (simp add: mk_spec_sel w2 l)
  from a b show ?thesis
    by (intro conjI)
qed

section \<open>The output path\<close>


lemma demo_drop_stmt_trace:
  "stmt_worker demo_extern ''g'' [] False ''out'' ([], []) (mk_spec ''drop_stmt'' [])
     = [Log ''parse: drop_stmt, inline: [], descend: false'', Parse ''g'', InlineCall [],
        Extract ''drop_stmt'' False False [] [], Render ''drop_stmt ::= identifier NOT'',
        Log ''drop_stmt: generated railroad diagram'',
        WriteFile ''out/drop.html'' ''<svg>drop_stmt ::= identifier NOT</svg>'']"
  by code_simp





lemma spec_names_suffix_only:
  "list_all (\<lambda>n. Replace n ''_stmt'' [] 1 = TrimSuffix n ''_stmt'') spec_names"
  by code_simp



lemma spec_names_paths_distinct:
  "distinct (''grammar'' # map (\<lambda>n. Replace n ''_stmt'' [] 1) spec_names)"
  by code_simp



section \<open>The two token rewrites of \<open>runParse\<close>\<close>

text \<open>
  What \<open>replace_all\<close> copies from its input, and that a replacement sharing no character
  with \<open>old\<close> leaves no occurrence of \<open>old\<close> behind.
\<close>

lemma marker_ends_drop: "marker_ends old B s \<Longrightarrow> marker_ends old B (drop n s)"
proof (induction s arbitrary: n)
  case Nil
  then show ?case by simp
next
  case (Cons c cs)
  then show ?case by (cases n) auto
qed

lemma marker_ends_append:
  "set N \<inter> set old = {} \<Longrightarrow> old \<noteq> [] \<Longrightarrow> marker_ends old B R \<Longrightarrow> marker_ends old B (N @ R)"
proof (induction N)
  case Nil
  then show ?case by simp
next
  case (Cons a N)
  from Cons.prems(2) obtain h hs where old: "old = h # hs"
    by (cases old) auto
  with Cons.prems(1) have "\<not> prefix old (a # N @ R)"
    by auto
  with Cons show ?case by simp
qed

lemma replace_all_prefix_copied:
  "q \<noteq> [] \<Longrightarrow> new \<noteq> [] \<Longrightarrow> hd new \<notin> set q \<Longrightarrow> prefix q (replace_all old new s)
     \<Longrightarrow> prefix q s \<and> \<not> (old \<noteq> [] \<and> prefix old s)"
proof (induction q arbitrary: s)
  case Nil
  then show ?case by simp
next
  case (Cons a q)
  from Cons.prems(2) obtain n ns where new: "new = n # ns"
    by (cases new) auto
  from Cons.prems(4) obtain c cs where s: "s = c # cs"
    by (cases s) auto
  have np: "\<not> (old \<noteq> [] \<and> prefix old s)"
  proof
    assume "old \<noteq> [] \<and> prefix old s"
    with s new Cons.prems(4) have "a = n"
      by simp
    with new Cons.prems(3) show False
      by simp
  qed
  with s Cons.prems(4) have ac: "a = c" and pq: "prefix q (replace_all old new cs)"
    by auto
  have "prefix q cs"
  proof (cases q)
    case Nil
    then show ?thesis by simp
  next
    case (Cons b q')
    with Cons.IH [of cs] Cons.prems(2,3) pq show ?thesis
      by simp
  qed
  with ac s np show ?case
    by simp
qed

lemma sublist_append_disjoint:
  "set ys \<inter> set xs = {} \<Longrightarrow> xs \<noteq> [] \<Longrightarrow> sublist xs (ys @ zs) \<Longrightarrow> sublist xs zs"
proof (induction ys)
  case Nil
  then show ?case by simp
next
  case (Cons y ys)
  from Cons.prems(2) obtain x xs' where xs: "xs = x # xs'"
    by (cases xs) auto
  with Cons.prems(1) have "\<not> prefix xs (y # ys @ zs)"
    by auto
  with Cons.prems(3) have "sublist xs (ys @ zs)"
    by (simp add: sublist_Cons_right)
  with Cons show ?case by simp
qed

lemma replace_all_removes_old:
  "old \<noteq> [] \<Longrightarrow> new \<noteq> [] \<Longrightarrow> set new \<inter> set old = {} \<Longrightarrow> \<not> sublist old (replace_all old new s)"
proof (induction old new s rule: replace_all.induct)
  case (1 old new)
  then show ?case by simp
next
  case (2 old new c cs)
  show ?case
  proof (cases "prefix old (c # cs)")
    case True
    with 2 have "\<not> sublist old (replace_all old new (drop (length old) (c # cs)))"
      by simp
    with sublist_append_disjoint [OF "2.prems"(3) "2.prems"(1)]
    have "\<not> sublist old (new @ replace_all old new (drop (length old) (c # cs)))"
      by blast
    with True "2.prems"(1) show ?thesis
      by simp
  next
    case False
    with 2 have ih: "\<not> sublist old (replace_all old new cs)"
      by simp
    from "2.prems" have "hd new \<notin> set old"
      by (cases new) auto
    with replace_all_prefix_copied [of old new old "c # cs"] "2.prems" False
    have "\<not> prefix old (replace_all old new (c # cs))"
      by blast
    with False ih show ?thesis
      by (simp add: sublist_Cons_right)
  qed
qed

text \<open>
  Removing \<open>old\<close> can bring its neighbours together. When every occurrence is followed
  by the end of the text or by a character outside \<open>B\<close>, no pattern whose characters after
  the first all lie in \<open>B\<close> is created by the removal.
\<close>

lemma marker_ends_replace_all:
  "marker_ends old B s \<Longrightarrow> old \<noteq> [] \<Longrightarrow> N \<noteq> [] \<Longrightarrow> set N \<inter> set old = {} \<Longrightarrow> hd N \<notin> B
     \<Longrightarrow> marker_ends old B (replace_all P N s)"
proof (induction P N s rule: replace_all.induct)
  case (1 P N)
  then show ?case by simp
next
  case (2 P N c cs)
  show ?case
  proof (cases "P \<noteq> [] \<and> prefix P (c # cs)")
    case True
    from "2.prems"(1) have "marker_ends old B (drop (length P) (c # cs))"
      by (rule marker_ends_drop)
    with 2 True have "marker_ends old B (replace_all P N (drop (length P) (c # cs)))"
      by simp
    with marker_ends_append [OF "2.prems"(4) "2.prems"(2)] True show ?thesis
      by simp
  next
    case False
    with 2 have ih: "marker_ends old B (replace_all P N cs)"
      by simp
    have "fresh B (drop (length old) (c # replace_all P N cs))"
      if pre: "prefix old (c # replace_all P N cs)"
    proof (cases "drop (length old) (c # replace_all P N cs)")
      case Nil
      then show ?thesis by simp
    next
      case (Cons x rest)
      show ?thesis
      proof (rule ccontr)
        assume "\<not> ?thesis"
        with Cons have xB: "x \<in> B"
          by simp
        from pre obtain zs where zs: "c # replace_all P N cs = old @ zs"
          by (auto simp: prefix_def)
        with Cons have "zs = x # rest"
          by simp
        with zs have "prefix (old @ [x]) (c # replace_all P N cs)"
          by (simp add: prefix_def)
        with False have px: "prefix (old @ [x]) (replace_all P N (c # cs))"
          by auto
        from "2.prems"(3,4,5) xB have "hd N \<notin> set (old @ [x])"
          by (cases N) auto
        with replace_all_prefix_copied [of "old @ [x]" N P "c # cs"] px "2.prems"(3)
        have "prefix (old @ [x]) (c # cs)"
          by simp
        then obtain ys where ys: "c # cs = old @ x # ys"
          by (auto simp: prefix_def)
        then have "prefix old (c # cs)" and "drop (length old) (c # cs) = x # ys"
          by (simp_all add: prefix_def)
        with "2.prems"(1) have "x \<notin> B"
          by simp
        with xB show False
          by simp
      qed
    qed
    moreover from False have "replace_all P N (c # cs) = c # replace_all P N cs"
      by auto
    ultimately show ?thesis
      using ih by simp
  qed
qed

lemma fresh_remove_all:
  "marker_ends old B u \<Longrightarrow> old \<noteq> [] \<Longrightarrow> fresh B u \<Longrightarrow> fresh B (replace_all old [] u)"
proof (induction old "[] :: string" u rule: replace_all.induct)
  case (1 old)
  then show ?case by simp
next
  case (2 old c cs)
  show ?case
  proof (cases "prefix old (c # cs)")
    case True
    with "2.prems" have "fresh B (drop (length old) (c # cs))"
      by simp
    moreover from "2.prems"(1) have "marker_ends old B (drop (length old) (c # cs))"
      by (rule marker_ends_drop)
    ultimately show ?thesis
      using 2 True by simp
  next
    case False
    with "2.prems" show ?thesis
      by simp
  qed
qed

lemma remove_all_prefix_copied:
  "marker_ends old B cs \<Longrightarrow> old \<noteq> [] \<Longrightarrow> set q \<subseteq> B \<Longrightarrow> prefix q (replace_all old [] cs)
     \<Longrightarrow> prefix q cs"
proof (induction q arbitrary: cs)
  case Nil
  then show ?case by simp
next
  case (Cons b q)
  from Cons.prems(4) obtain c cs' where cs: "cs = c # cs'"
    by (cases cs) auto
  have np: "\<not> prefix old cs"
  proof
    assume p: "prefix old cs"
    with Cons.prems(1) cs have "fresh B (drop (length old) cs)"
      by simp
    moreover from Cons.prems(1) have "marker_ends old B (drop (length old) cs)"
      by (rule marker_ends_drop)
    ultimately have "fresh B (replace_all old [] (drop (length old) cs))"
      using Cons.prems(2) by (simp add: fresh_remove_all)
    moreover from p cs Cons.prems(2)
    have "replace_all old [] cs = replace_all old [] (drop (length old) cs)"
      by simp
    ultimately have "fresh B (replace_all old [] cs)"
      by simp
    with Cons.prems(3,4) show False
      by (cases "replace_all old [] cs") auto
  qed
  with cs Cons.prems(4) have "b = c" and "prefix q (replace_all old [] cs')"
    by auto
  moreover from Cons.prems(1) cs have "marker_ends old B cs'"
    by simp
  ultimately show ?case
    using Cons.IH [of cs'] Cons.prems(2,3) cs by simp
qed

lemma remove_all_creates_nothing:
  "marker_ends old B t \<Longrightarrow> old \<noteq> [] \<Longrightarrow> P \<noteq> [] \<Longrightarrow> set (tl P) \<subseteq> B
     \<Longrightarrow> P = old \<or> \<not> sublist P t \<Longrightarrow> \<not> sublist P (replace_all old [] t)"
proof (induction old "[] :: string" t rule: replace_all.induct)
  case (1 old)
  then show ?case by simp
next
  case (2 old c cs)
  show ?case
  proof (cases "prefix old (c # cs)")
    case True
    from "2.prems"(1) have "marker_ends old B (drop (length old) (c # cs))"
      by (rule marker_ends_drop)
    moreover have "P = old \<or> \<not> sublist P (drop (length old) (c # cs))"
      using "2.prems"(5) sublist_drop sublist_order.order_trans by blast
    ultimately show ?thesis
      using 2 True by simp
  next
    case False
    from "2.prems"(5) have "P = old \<or> \<not> sublist P cs"
      by (auto simp: sublist_Cons_right)
    with 2 False have ih: "\<not> sublist P (replace_all old [] cs)"
      by simp
    have "\<not> prefix P (c # replace_all old [] cs)"
    proof
      assume p: "prefix P (c # replace_all old [] cs)"
      from "2.prems"(3) obtain a P' where P: "P = a # P'"
        by (cases P) auto
      with p have "a = c" and "prefix P' (replace_all old [] cs)"
        by simp_all
      moreover from "2.prems"(1) have "marker_ends old B cs"
        by simp
      moreover from "2.prems"(4) P have "set P' \<subseteq> B"
        by simp
      ultimately have "prefix P' cs"
        using "2.prems"(2) remove_all_prefix_copied by blast
      with P \<open>a = c\<close> have pp: "prefix P (c # cs)"
        by simp
      with "2.prems"(5) False show False
        by auto
    qed
    with ih False show ?thesis
      by (simp add: sublist_Cons_right)
  qed
qed

text \<open>
  The bytes returned can contain \<open>IDENT\<close> or \<open>_LA\<close>: the second rewrite removes \<open>_LA\<close>
  from \<open>ID_LAENT\<close> and from \<open>__LALA\<close>, and does not look at its result again.
\<close>

theorem runParse_rewrites_counterexample:
  "snd (runParse demo_extern (NewReader ''g'') [] ''ID_LAENT'' False False [] [])
     = Some (''IDENT ::= identifier NOT'', None)
   \<and> Contains ''IDENT ::= identifier NOT'' ''IDENT''
   \<and> snd (runParse demo_extern (NewReader ''g'') [] ''__LALA'' False False [] [])
     = Some (''_LA ::= identifier NOT'', None)
   \<and> Contains ''_LA ::= identifier NOT'' ''_LA''"
  by code_simp

text \<open>
  C4, amended: for every successful extraction \<open>runParse\<close> returns the fragment with every
  occurrence of \<open>IDENT\<close> rewritten to \<open>identifier\<close> and then every occurrence of \<open>_LA\<close>
  removed, each in one pass from left to right; the first pass leaves no \<open>IDENT\<close> behind.
  When every \<open>_LA\<close> of the fragment is followed by the end of the text or by a character
  other than \<open>A\<close>, \<open>D\<close>, \<open>E\<close>, \<open>L\<close>, \<open>N\<close>, \<open>T\<close> (as it is where the marker ends a token
  name), the returned bytes contain neither substring.
\<close>

theorem runParse_rewrites_tokens:
  assumes "ParseGrammar X (fst (ReadAll r)) = (g, None)"
    and "Inline X g inl = (g', None)"
    and "ExtractProduction X g' topStmt descend nosplt mtch excl = (b, None)"
  shows "\<exists>tr b'. runParse X r inl topStmt descend nosplt mtch excl = (tr, Some (b', None))
          \<and> b' = replace_all ''_LA'' [] (replace_all ''IDENT'' ''identifier'' b)
          \<and> \<not> Contains (replace_all ''IDENT'' ''identifier'' b) ''IDENT''
          \<and> (marker_ends ''_LA'' (set ''ADELNT'') b
                \<longrightarrow> \<not> Contains b' ''IDENT'' \<and> \<not> Contains b' ''_LA'')"
proof -
  let ?t = "replace_all ''IDENT'' ''identifier'' b"
  let ?B = "set ''ADELNT''"
  have t: "\<not> sublist ''IDENT'' ?t"
    by (rule replace_all_removes_old) simp_all
  have "\<not> sublist ''IDENT'' (replace_all ''_LA'' [] ?t) \<and> \<not> sublist ''_LA'' (replace_all ''_LA'' [] ?t)"
    if "marker_ends ''_LA'' ?B b"
  proof -
    from that have m: "marker_ends ''_LA'' ?B ?t"
      by (rule marker_ends_replace_all) simp_all
    from m t have "\<not> sublist ''IDENT'' (replace_all ''_LA'' [] ?t)"
      by (intro remove_all_creates_nothing [of "''_LA''" ?B]) simp_all
    moreover from m have "\<not> sublist ''_LA'' (replace_all ''_LA'' [] ?t)"
      by (intro remove_all_creates_nothing [of "''_LA''" ?B]) simp_all
    ultimately show ?thesis
      by simp
  qed
  with t show ?thesis
    using assms by (simp add: runParse_def Let_def Replace_def Contains_def)
qed

theorem runParse_rewrites_tokens_witness:
  "\<exists>tr b'. runParse demo_extern (NewReader ''g'') [] ''drop_stmt'' False False [] []
              = (tr, Some (b', None))
     \<and> b' = replace_all ''_LA'' []
              (replace_all ''IDENT'' ''identifier'' ''drop_stmt ::= IDENT NOT_LA'')
     \<and> \<not> Contains (replace_all ''IDENT'' ''identifier'' ''drop_stmt ::= IDENT NOT_LA'') ''IDENT''
     \<and> \<not> Contains b' ''IDENT'' \<and> \<not> Contains b' ''_LA''"
proof -
  have p: "ParseGrammar demo_extern (fst (ReadAll (NewReader ''g''))) = (''g'', None)"
    by (simp add: demo_extern_def ReadAll_NewReader)
  have i: "Inline demo_extern ''g'' [] = (''g'', None)"
    by (simp add: demo_extern_def)
  have e: "ExtractProduction demo_extern ''g'' ''drop_stmt'' False False [] []
             = (''drop_stmt ::= IDENT NOT_LA'', None)"
    by (simp add: demo_extern_def)
  have m: "marker_ends ''_LA'' (set ''ADELNT'') ''drop_stmt ::= IDENT NOT_LA''"
    by simp
  from runParse_rewrites_tokens [OF p i e] m show ?thesis
    by blast
qed

section \<open>Facts about runs\<close>

lemma exec_terminal_last:
  "(k, e) \<in> set (exec sched ws) \<Longrightarrow> terminal e
     \<Longrightarrow> last (exec sched ws) = (k, e) \<and> exec (sched @ rest) ws = exec sched ws"
proof (induction sched arbitrary: ws)
  case Nil
  then show ?case by simp
next
  case (Cons i sched)
  show ?case
  proof (cases "i < length ws")
    case False
    with Cons show ?thesis by simp
  next
    case True
    show ?thesis
    proof (cases "ws ! i")
      case Nil
      with True Cons show ?thesis by simp
    next
      case (Cons e' es)
      show ?thesis
      proof (cases "terminal e'")
        case True
        with \<open>i < length ws\<close> Cons Cons.prems show ?thesis by simp
      next
        case False
        with \<open>i < length ws\<close> Cons Cons.prems
        have mem: "(k, e) \<in> set (exec sched (ws[i := es]))"
          by auto
        from Cons.IH [OF mem Cons.prems(2)] mem False \<open>i < length ws\<close> Cons
        show ?thesis
          by auto
      qed
    qed
  qed
qed

lemma exec_subset:
  "(j, e) \<in> set (exec sched ws) \<Longrightarrow> j < length ws \<and> e \<in> set (ws ! j)"
proof (induction sched arbitrary: ws)
  case Nil
  then show ?case by simp
next
  case (Cons i sched)
  show ?case
  proof (cases "i < length ws")
    case False
    with Cons show ?thesis by simp
  next
    case True
    show ?thesis
    proof (cases "ws ! i")
      case Nil
      with True Cons show ?thesis by simp
    next
      case (Cons e' es)
      show ?thesis
      proof (cases "(j, e) = (i, e')")
        case True
        with \<open>i < length ws\<close> Cons show ?thesis by simp
      next
        case False
        with \<open>i < length ws\<close> Cons Cons.prems
        have mem: "(j, e) \<in> set (exec sched (ws[i := es]))"
          by (auto split: if_splits)
        from Cons.IH [OF mem] have "j < length ws" and "e \<in> set ((ws[i := es]) ! j)"
          by simp_all
        with \<open>i < length ws\<close> Cons show ?thesis
          by (cases "j = i") auto
      qed
    qed
  qed
qed

lemma exec_events_of:
  "\<forall>w \<in> set ws. \<forall>e \<in> set w. \<not> terminal e \<Longrightarrow> k < length ws
     \<Longrightarrow> events_of k (exec sched ws) = take (count_list sched k) (ws ! k)"
proof (induction sched arbitrary: ws)
  case Nil
  then show ?case by (simp add: events_of_def)
next
  case (Cons i sched)
  show ?case
  proof (cases "i < length ws")
    case False
    with Cons show ?thesis by auto
  next
    case True
    show ?thesis
    proof (cases "ws ! i")
      case Nil
      with True Cons show ?thesis by auto
    next
      case (Cons e' es)
      with True Cons.prems(1) have nt: "\<not> terminal e'" and "\<forall>e \<in> set es. \<not> terminal e"
        by (metis list.set_intros(1) nth_mem, metis list.set_intros(2) nth_mem)
      with Cons.prems(1) have "\<forall>w \<in> set (ws[i := es]). \<forall>e \<in> set w. \<not> terminal e"
        by (metis insertE set_update_subset_insert subsetD)
      with Cons.IH [of "ws[i := es]"] Cons.prems(2)
      have ih: "events_of k (exec sched (ws[i := es])) = take (count_list sched k) ((ws[i := es]) ! k)"
        by simp
      from True Cons nt have "exec (i # sched) ws = (i, e') # exec sched (ws[i := es])"
        by simp
      with ih True Cons Cons.prems(2) show ?thesis
        by (cases "i = k") (auto simp: events_of_def)
    qed
  qed
qed

lemma files_of_SomeD: "files_of tr p = Some b \<Longrightarrow> \<exists>i. (i, WriteFile p b) \<in> set tr"
proof (induction tr)
  case Nil
  then show ?case by simp
next
  case (Cons x tr)
  obtain i e where x: "x = (i, e)" by (cases x) auto
  with Cons show ?case
    by (cases e) (auto split: if_splits)
qed

lemma files_of_written: "(j, WriteFile p b) \<in> set tr \<Longrightarrow> files_of tr p \<noteq> None"
proof (induction tr)
  case Nil
  then show ?case by simp
next
  case (Cons x tr)
  obtain i e where x: "x = (i, e)" by (cases x) auto
  with Cons show ?case
    by (cases e) (auto split: if_splits)
qed

lemma files_of_single_writer:
  assumes "(j, WriteFile p b) \<in> set tr"
    and "\<forall>i b'. (i, WriteFile p b') \<in> set tr \<longrightarrow> b' = b"
  shows "files_of tr p = Some b"
proof -
  from files_of_written [OF assms(1)] obtain b' where b': "files_of tr p = Some b'"
    by auto
  from files_of_SomeD [OF this] assms(2) have "b' = b"
    by auto
  with b' show ?thesis
    by simp
qed

lemma events_of_idle:
  assumes "k < length ws" and "ws ! k = []"
  shows "events_of k (exec sched ws) = []"
proof -
  have "(j, e) \<in> set (exec sched ws) \<Longrightarrow> j \<noteq> k" for j e
    using exec_subset [of j e sched ws] assms(2) by auto
  then show ?thesis
    by (auto simp: events_of_def filter_empty_conv)
qed

lemma render_write_unique:
  assumes "WriteFile p b \<in> set (render_and_write X baseDir s g)"
    and "WriteFile p' b' \<in> set (render_and_write X baseDir s g)"
  shows "p' = p \<and> b' = b"
proof -
  obtain tr rr err where rr: "runRR X (name s) (NewReader g) = (tr, rr, err)"
    by (cases "runRR X (name s) (NewReader g)") auto
  with runRR_no_write [of _ _ X "name s" "NewReader g"]
  have "\<forall>p b. WriteFile p b \<notin> set tr"
    by simp
  with rr assms show ?thesis
    by (auto simp: render_and_write_def split: prod.splits option.splits sum.splits)
qed

lemma stmt_worker_write_unique:
  assumes "WriteFile p b \<in> set (stmt_worker X bnf flt printBNF baseDir ord s)"
    and "WriteFile p' b' \<in> set (stmt_worker X bnf flt printBNF baseDir ord s)"
  shows "p' = p \<and> b' = b"
proof -
  let ?s = "if stmt s = [] then s\<lparr>stmt := name s\<rparr> else s"
  obtain tr res where rp:
    "runParse X (NewReader bnf) (inline ?s) (stmt ?s) False (nosplit ?s) (match ?s) (exclude ?s)
       = (tr, res)"
    by (cases "runParse X (NewReader bnf) (inline ?s) (stmt ?s) False (nosplit ?s)
                 (match ?s) (exclude ?s)") auto
  with runParse_no_write [of _ _ X "NewReader bnf" "inline ?s" "stmt ?s" False "nosplit ?s"
                             "match ?s" "exclude ?s"]
  have nw: "\<forall>p b. WriteFile p b \<notin> set tr"
    by simp
  have "\<exists>g. WriteFile p b \<in> set (render_and_write X baseDir s g)
            \<and> WriteFile p' b' \<in> set (render_and_write X baseDir s g)"
    using assms rp nw
    by (auto simp: stmt_worker_def Let_def render_and_write_stmt_update
        split: option.splits sum.splits prod.splits if_splits)
  with render_write_unique show ?thesis
    by blast
qed

text \<open>
  A run without an exit has let every worker perform as many events as the schedule gave
  it; so a run that schedules a worker up to its \<open>log.Fatal\<close> has ended in an exit.
\<close>

lemma exec_unfinished:
  "\<forall>x \<in> set (exec sched ws). \<not> terminal (snd x) \<Longrightarrow> k < length ws
     \<Longrightarrow> events_of k (exec sched ws) = take (count_list sched k) (ws ! k)"
proof (induction sched arbitrary: ws)
  case Nil
  then show ?case by (simp add: events_of_def)
next
  case (Cons i sched)
  show ?case
  proof (cases "i < length ws")
    case False
    with Cons show ?thesis by auto
  next
    case True
    show ?thesis
    proof (cases "ws ! i")
      case Nil
      with True Cons show ?thesis by auto
    next
      case (Cons e' es)
      with True Cons.prems(1) have nt: "\<not> terminal e'"
        by (auto split: if_splits)
      with True Cons have ex: "exec (i # sched) ws = (i, e') # exec sched (ws[i := es])"
        by simp
      with Cons.prems(1) have "\<forall>x \<in> set (exec sched (ws[i := es])). \<not> terminal (snd x)"
        by simp
      with Cons.IH [of "ws[i := es]"] Cons.prems(2)
      have ih: "events_of k (exec sched (ws[i := es])) = take (count_list sched k) ((ws[i := es]) ! k)"
        by simp
      with ex True Cons Cons.prems(2) show ?thesis
        by (cases "i = k") (auto simp: events_of_def)
    qed
  qed
qed

lemma exec_reaches_exit:
  assumes "k < length ws" and "ws ! k = tr @ [e]" and "terminal e"
    and "length (ws ! k) \<le> count_list sched k"
  shows "\<exists>j e'. terminal e' \<and> (j, e') \<in> set (exec sched ws)"
proof (rule ccontr)
  assume "\<not> ?thesis"
  then have "\<forall>x \<in> set (exec sched ws). \<not> terminal (snd x)"
    by auto
  from exec_unfinished [OF this assms(1)] assms(4)
  have "events_of k (exec sched ws) = ws ! k"
    by simp
  with assms(2) have "e \<in> set (events_of k (exec sched ws))"
    by simp
  then have "(k, e) \<in> set (exec sched ws)"
    by (auto simp: events_of_def)
  with assms(3) \<open>\<not> ?thesis\<close> show False
    by blast
qed

text \<open>
  Each kind of failure behind the parsing of the grammar ends the worker in a \<open>log.Fatal\<close>.
\<close>

lemma stmt_worker_failure:
  assumes "flt = [] \<or> flt = name s"
    and "ParseGrammar X bnf = (g, None)"
    and "(\<exists>e. Inline X g (inline s) = (g', Some e))
         \<or> (Inline X g (inline s) = (g', None)
             \<and> (\<exists>e. ExtractProduction X g' (if stmt s = [] then name s else stmt s) False
                        (nosplit s) (match s) (exclude s) = (b, Some e)))
         \<or> (Inline X g (inline s) = (g', None)
             \<and> ExtractProduction X g' (if stmt s = [] then name s else stmt s) False
                   (nosplit s) (match s) (exclude s) = (b, None)
             \<and> \<not> printBNF
             \<and> apply_regreplace X (snd ord)
                   (apply_replace (fst ord)
                      (Replace (Replace b ''IDENT'' ''identifier'' (- 1)) ''_LA'' [] (- 1)))
                 = Inr g2
             \<and> (snd (snd (runRR X (name s) (NewReader g2))) \<noteq> None
                 \<or> snd (ExtractTag X (fst (snd (runRR X (name s) (NewReader g2)))) ''svg'')
                      \<noteq> None))"
  shows "\<exists>tr m. stmt_worker X bnf flt printBNF baseDir ord s = tr @ [Fatal m]"
proof -
  let ?root = "if stmt s = [] then name s else stmt s"
  let ?b' = "Replace (Replace b ''IDENT'' ''identifier'' (- 1)) ''_LA'' [] (- 1)"
  from assms(3) consider
    (inline_fails) e where "Inline X g (inline s) = (g', Some e)"
  | (extract_fails) e where "Inline X g (inline s) = (g', None)"
      "ExtractProduction X g' ?root False (nosplit s) (match s) (exclude s) = (b, Some e)"
  | (render_fails) "Inline X g (inline s) = (g', None)"
      "ExtractProduction X g' ?root False (nosplit s) (match s) (exclude s) = (b, None)"
      "\<not> printBNF"
      "apply_regreplace X (snd ord) (apply_replace (fst ord) ?b') = Inr g2"
      "snd (snd (runRR X (name s) (NewReader g2))) \<noteq> None
       \<or> snd (ExtractTag X (fst (snd (runRR X (name s) (NewReader g2)))) ''svg'') \<noteq> None"
    by blast
  then show ?thesis
  proof cases
  case inline_fails
  with assms(1,2) have "stmt_worker X bnf flt printBNF baseDir ord s
      = [Log (''parse: '' @ (if stmt s = [] then name s else stmt s) @ '', inline: ''
                @ fmt_strings (inline s) @ '', descend: '' @ fmt_bool False),
         Parse bnf, InlineCall (inline s)] @ [Fatal e]"
    by (auto simp: stmt_worker_def runParse_def Let_def ReadAll_NewReader)
  then show ?thesis
    by blast
next
  case extract_fails
  from stmt_worker_trace [OF assms(1,2) this refl, of printBNF baseDir ord]
  have "stmt_worker X bnf flt printBNF baseDir ord s
      = [Log (''parse: '' @ (if stmt s = [] then name s else stmt s) @ '', inline: ''
                @ fmt_strings (inline s) @ '', descend: '' @ fmt_bool False),
         Parse bnf, InlineCall (inline s),
         Extract (if stmt s = [] then name s else stmt s) False (nosplit s) (match s)
           (exclude s)]
        @ [Fatal (name s @ '': '' @ e @ nl
                    @ Replace (Replace b ''IDENT'' ''identifier'' (- 1)) ''_LA'' [] (- 1))]"
    by simp
  then show ?thesis
    by blast
next
  case render_fails
  note i = render_fails(1) and x = render_fails(2) and p = render_fails(3)
    and r = render_fails(4) and f = render_fails(5)
  let ?tr = "[Log (''parse: '' @ (if stmt s = [] then name s else stmt s) @ '', inline: ''
                @ fmt_strings (inline s) @ '', descend: '' @ fmt_bool False),
         Parse bnf, InlineCall (inline s),
         Extract (if stmt s = [] then name s else stmt s) False (nosplit s) (match s)
           (exclude s)]"
  from stmt_worker_trace [OF assms(1,2) i x refl, of printBNF baseDir ord] p r
  have w: "stmt_worker X bnf flt printBNF baseDir ord s = ?tr @ render_and_write X baseDir s g2"
    by simp
  obtain tr rr err where rr: "runRR X (name s) (NewReader g2) = (tr, rr, err)"
    by (cases "runRR X (name s) (NewReader g2)") auto
  obtain body terr where et: "ExtractTag X rr ''svg'' = (body, terr)"
    by (cases "ExtractTag X rr ''svg''") auto
  from f rr et have "\<exists>m. render_and_write X baseDir s g2 = tr @ [Fatal m]"
    by (cases err; cases terr) (simp_all add: render_and_write_def)
  then obtain m where "render_and_write X baseDir s g2 = tr @ [Fatal m]"
    by blast
  with w have "stmt_worker X bnf flt printBNF baseDir ord s = (?tr @ tr) @ [Fatal m]"
    by simp
  then show ?thesis
    by blast
qed
qed

text \<open>
  A worker writes to its own path only, and the paths of the specifications of \<open>main.go\<close>
  and of the overview differ wherever \<open>filepath.Join\<close> keeps their file names apart.
\<close>

lemma render_write_path:
  assumes "WriteFile p b \<in> set (render_and_write X baseDir s g)"
  shows "p = out_path X baseDir s"
proof -
  obtain tr rr err where rr: "runRR X (name s) (NewReader g) = (tr, rr, err)"
    by (cases "runRR X (name s) (NewReader g)") auto
  with runRR_no_write [of _ _ X "name s" "NewReader g"]
  have "\<forall>p b. WriteFile p b \<notin> set tr"
    by simp
  with rr assms show ?thesis
    by (auto simp: render_and_write_def split: prod.splits option.splits sum.splits)
qed

lemma stmt_worker_write_path:
  assumes "WriteFile p b \<in> set (stmt_worker X bnf flt printBNF baseDir ord s)"
  shows "p = out_path X baseDir s"
proof -
  let ?s = "if stmt s = [] then s\<lparr>stmt := name s\<rparr> else s"
  obtain tr res where rp:
    "runParse X (NewReader bnf) (inline ?s) (stmt ?s) False (nosplit ?s) (match ?s) (exclude ?s)
       = (tr, res)"
    by (cases "runParse X (NewReader bnf) (inline ?s) (stmt ?s) False (nosplit ?s)
                 (match ?s) (exclude ?s)") auto
  with runParse_no_write [of _ _ X "NewReader bnf" "inline ?s" "stmt ?s" False "nosplit ?s"
                             "match ?s" "exclude ?s"]
  have nw: "\<forall>p b. WriteFile p b \<notin> set tr"
    by simp
  have "\<exists>g. WriteFile p b \<in> set (render_and_write X baseDir s g)"
    using assms rp nw
    by (auto simp: stmt_worker_def Let_def render_and_write_stmt_update
        split: option.splits sum.splits prod.splits if_splits)
  with render_write_path show ?thesis
    by blast
qed

lemma stmt_block_worker_write_path:
  assumes "WriteFile p b \<in> set (stmt_block_worker X bnf flt printBNF baseDir)"
  shows "p = filepath_Join X baseDir ''grammar.html''"
proof -
  obtain tr res where rp:
    "runParse X (NewReader bnf) [] ''stmt_block'' True True [] [] = (tr, res)"
    by (cases "runParse X (NewReader bnf) [] ''stmt_block'' True True [] []") auto
  with runParse_no_write [of _ _ X "NewReader bnf" "[]" "''stmt_block''" True True "[]" "[]"]
  have nw: "\<forall>p b. WriteFile p b \<notin> set tr"
    by simp
  have nr: "WriteFile p b \<notin> set a"
    if "runRR X ''stmt_block'' (NewReader g) = (a, r, e)" for g a r e
    using runRR_no_write [of p b X "''stmt_block''" "NewReader g"] that by simp
  from assms rp nw show ?thesis
    by (auto simp: stmt_block_worker_def Let_def nr
        split: option.splits prod.splits if_splits)
qed

lemma file_names_distinct: "distinct file_names"
  by code_simp

lemma out_paths_differ:
  assumes "inj_on (filepath_Join X baseDir) (set file_names)"
    and "name s \<in> set spec_names"
  shows "out_path X baseDir s \<noteq> filepath_Join X baseDir ''grammar.html''"
    and "name s' \<in> set spec_names \<Longrightarrow> name s \<noteq> name s'
           \<Longrightarrow> out_path X baseDir s \<noteq> out_path X baseDir s'"
proof -
  let ?f = "\<lambda>n. Replace n ''_stmt'' [] 1 @ ''.html''"
  from file_names_distinct have g: "''grammar.html'' \<notin> ?f ` set spec_names"
    and i: "inj_on ?f (set spec_names)"
    by (simp_all add: file_names_def distinct_map)
  from assms(2) have m: "?f (name s) \<in> set file_names"
    by (simp add: file_names_def)
  have gm: "''grammar.html'' \<in> set file_names"
    by (simp add: file_names_def)
  from g assms(2) have ne: "?f (name s) \<noteq> ''grammar.html''"
    by force
  show "out_path X baseDir s \<noteq> filepath_Join X baseDir ''grammar.html''"
  proof
    assume "out_path X baseDir s = filepath_Join X baseDir ''grammar.html''"
    then have "filepath_Join X baseDir (?f (name s)) = filepath_Join X baseDir ''grammar.html''"
      by (simp only: out_path_def)
    from inj_onD [OF assms(1) this m gm] ne show False
      by simp
  qed
  show "out_path X baseDir s \<noteq> out_path X baseDir s'"
    if "name s' \<in> set spec_names" and "name s \<noteq> name s'"
  proof -
    from that(1) have m': "?f (name s') \<in> set file_names"
      by (simp add: file_names_def)
    from inj_onD [OF i _ assms(2) that(1)] that(2) have ne': "?f (name s) \<noteq> ?f (name s')"
      by blast
    show ?thesis
    proof
      assume "out_path X baseDir s = out_path X baseDir s'"
      then have "filepath_Join X baseDir (?f (name s)) = filepath_Join X baseDir (?f (name s'))"
        by (simp only: out_path_def)
      from inj_onD [OF assms(1) this m m'] ne' show False
        by simp
    qed
  qed
qed

section \<open>The filter\<close>

text \<open>
  C6: with a non-empty filter, a statement worker whose specification has another name, and
  the overview worker when the filter is not \<open>stmt_block\<close>, do nothing at all: no log line,
  no parsing, inlining, extraction or rendering, no file, and so in every run no event is
  theirs. A worker whose name is the filter does exactly what it does when no filter is
  given.
\<close>

theorem filter_skips_other_workers:
  "(flt \<noteq> [] \<and> flt \<noteq> name s \<longrightarrow> stmt_worker X bnf flt printBNF baseDir ord s = [])
   \<and> (flt \<noteq> [] \<and> flt \<noteq> ''stmt_block'' \<longrightarrow> stmt_block_worker X bnf flt printBNF baseDir = [])
   \<and> (flt = name s \<longrightarrow>
        stmt_worker X bnf flt printBNF baseDir ord s
          = stmt_worker X bnf [] printBNF baseDir ord s)
   \<and> (flt = ''stmt_block'' \<longrightarrow>
        stmt_block_worker X bnf flt printBNF baseDir
          = stmt_block_worker X bnf [] printBNF baseDir)
   \<and> (flt \<noteq> [] \<and> k < length specs \<and> flt \<noteq> name (specs ! k) \<longrightarrow>
        events_of (Suc k) (exec sched (workers X bnf flt printBNF baseDir ords specs)) = [])
   \<and> (flt \<noteq> [] \<and> flt \<noteq> ''stmt_block'' \<longrightarrow>
        events_of 0 (exec sched (workers X bnf flt printBNF baseDir ords specs)) = [])"
proof (intro conjI impI)
  assume "flt \<noteq> [] \<and> k < length specs \<and> flt \<noteq> name (specs ! k)"
  then have "Suc k < length (workers X bnf flt printBNF baseDir ords specs)"
    and "workers X bnf flt printBNF baseDir ords specs ! Suc k = []"
    by (simp_all add: workers_def stmt_worker_def)
  then show "events_of (Suc k) (exec sched (workers X bnf flt printBNF baseDir ords specs)) = []"
    by (rule events_of_idle)
next
  assume "flt \<noteq> [] \<and> flt \<noteq> ''stmt_block''"
  then have "0 < length (workers X bnf flt printBNF baseDir ords specs)"
    and "workers X bnf flt printBNF baseDir ords specs ! 0 = []"
    by (simp_all add: workers_def stmt_block_worker_def)
  then show "events_of 0 (exec sched (workers X bnf flt printBNF baseDir ords specs)) = []"
    by (rule events_of_idle)
qed (simp_all add: stmt_worker_def stmt_block_worker_def)

theorem filter_skips_other_workers_witness:
  "stmt_worker demo_extern ''g'' ''drop_stmt'' False ''out'' ([], []) (mk_spec ''insert_stmt'' [])
     = []
   \<and> stmt_block_worker demo_extern ''g'' ''drop_stmt'' False ''out'' = []
   \<and> stmt_worker demo_extern ''g'' ''drop_stmt'' False ''out'' ([], []) (mk_spec ''drop_stmt'' [])
       = stmt_worker demo_extern ''g'' [] False ''out'' ([], []) (mk_spec ''drop_stmt'' [])
   \<and> stmt_block_worker demo_extern ''g'' ''stmt_block'' False ''out''
       = stmt_block_worker demo_extern ''g'' [] False ''out''
   \<and> events_of 1 (exec [0, 1, 2, 2, 1, 0]
                    (workers demo_extern ''g'' ''drop_stmt'' False ''out'' no_order two_valid)) = []
   \<and> events_of 0 (exec [0, 1, 2, 2, 1, 0]
                    (workers demo_extern ''g'' ''drop_stmt'' False ''out'' no_order two_valid)) = []"
proof -
  note w1 = filter_skips_other_workers
              [of "''drop_stmt''" "mk_spec ''insert_stmt'' []" demo_extern "''g''" False "''out''"
                  "([], [])" 0 two_valid "[0, 1, 2, 2, 1, 0]" no_order]
  note w2 = filter_skips_other_workers
              [of "''drop_stmt''" "mk_spec ''drop_stmt'' []" demo_extern "''g''" False "''out''"
                  "([], [])"]
  note w3 = filter_skips_other_workers
              [of "''stmt_block''" _ demo_extern "''g''" False "''out''"]
  have a: "stmt_worker demo_extern ''g'' ''drop_stmt'' False ''out'' ([], [])
             (mk_spec ''insert_stmt'' []) = []"
    and b: "stmt_block_worker demo_extern ''g'' ''drop_stmt'' False ''out'' = []"
    and e: "events_of 1 (exec [0, 1, 2, 2, 1, 0]
              (workers demo_extern ''g'' ''drop_stmt'' False ''out'' no_order two_valid)) = []"
    and f: "events_of 0 (exec [0, 1, 2, 2, 1, 0]
              (workers demo_extern ''g'' ''drop_stmt'' False ''out'' no_order two_valid)) = []"
    using w1 by (simp_all add: mk_spec_def two_valid_def)
  have c: "stmt_worker demo_extern ''g'' ''drop_stmt'' False ''out'' ([], [])
             (mk_spec ''drop_stmt'' [])
           = stmt_worker demo_extern ''g'' [] False ''out'' ([], []) (mk_spec ''drop_stmt'' [])"
    using w2 by (simp add: mk_spec_def)
  have d: "stmt_block_worker demo_extern ''g'' ''stmt_block'' False ''out''
           = stmt_block_worker demo_extern ''g'' [] False ''out''"
    using w3 by simp
  from a b c d e f show ?thesis
    by (intro conjI)
qed

section \<open>A failing specification and its siblings\<close>

text \<open>
  In a grammar without the production \<open>column_def\<close> the specification \<open>column_def\<close> names a
  root that does not exist; its sibling \<open>iso_level\<close> has valid inputs and, run alone, writes
  \<open>out/iso_level.html\<close>. In the run where the first worker reaches its \<open>log.Fatalf\<close> before
  the sibling has written, the process exits and the sibling's file is never written,
  although the schedule would let every worker finish.
\<close>

theorem failing_spec_stops_sibling_counterexample:
  "last (stmt_worker failing_extern ''g'' [] False ''out'' ([], []) (mk_spec ''iso_level'' []))
     = WriteFile ''out/iso_level.html'' ''<svg>iso_level ::= identifier NOT</svg>''
   \<and> complete (replicate 5 1 @ replicate 7 2 @ replicate 7 0)
        (workers failing_extern ''g'' [] False ''out'' no_order column_def_and_iso_level)
   \<and> files_of (exec (replicate 5 1 @ replicate 7 2 @ replicate 7 0)
                 (workers failing_extern ''g'' [] False ''out'' no_order column_def_and_iso_level))
        ''out/iso_level.html'' = None"
  by code_simp

text \<open>
  C1, amended: when the base grammar has parsed and the run of a specification fails, be it
  that inlining fails, that the extraction returns an error (an unknown root production, or
  nothing left after filtering), or that the renderer fails (\<open>runRR\<close> or the extraction of
  the \<open>svg\<close> element returns an error), the last thing that its worker does is a
  \<open>log.Fatal\<close>, which ends the whole process: where it occurs it is the last event of the
  run, and nothing that the schedule holds after it happens. Every run in which the failing
  worker is scheduled up to its end has ended in such an exit, this worker's or an earlier
  one. The files that siblings wrote before it stay; a sibling that has not written its
  file by then never does.
\<close>

theorem failure_ends_the_run:
  assumes "k < length specs"
    and "s = specs ! k"
    and "ws = workers X bnf flt printBNF baseDir ords specs"
    and "flt = [] \<or> flt = name s"
    and "ParseGrammar X bnf = (g, None)"
    and "(\<exists>e. Inline X g (inline s) = (g', Some e))
         \<or> (Inline X g (inline s) = (g', None)
             \<and> (\<exists>e. ExtractProduction X g' (if stmt s = [] then name s else stmt s) False
                        (nosplit s) (match s) (exclude s) = (b, Some e)))
         \<or> (Inline X g (inline s) = (g', None)
             \<and> ExtractProduction X g' (if stmt s = [] then name s else stmt s) False
                   (nosplit s) (match s) (exclude s) = (b, None)
             \<and> \<not> printBNF
             \<and> apply_regreplace X (snd (ords k))
                   (apply_replace (fst (ords k))
                      (Replace (Replace b ''IDENT'' ''identifier'' (- 1)) ''_LA'' [] (- 1)))
                 = Inr g2
             \<and> (snd (snd (runRR X (name s) (NewReader g2))) \<noteq> None
                 \<or> snd (ExtractTag X (fst (snd (runRR X (name s) (NewReader g2)))) ''svg'')
                      \<noteq> None))"
  shows "\<exists>tr m. ws ! Suc k = tr @ [Fatal m]
           \<and> ((Suc k, Fatal m) \<in> set (exec sched ws)
                \<longrightarrow> last (exec sched ws) = (Suc k, Fatal m)
                    \<and> exec (sched @ rest) ws = exec sched ws)
           \<and> (length (ws ! Suc k) \<le> count_list sched (Suc k)
                \<longrightarrow> (\<exists>j e. terminal e \<and> last (exec sched ws) = (j, e))
                    \<and> exec (sched @ rest) ws = exec sched ws)"
proof -
  from stmt_worker_failure [OF assms(4,5,6), of baseDir]
  obtain tr m where "stmt_worker X bnf flt printBNF baseDir (ords k) s = tr @ [Fatal m]"
    by blast
  with assms(1,2,3) have len: "Suc k < length ws" and w: "ws ! Suc k = tr @ [Fatal m]"
    by (simp_all add: workers_def)
  have a: "last (exec sched ws) = (Suc k, Fatal m) \<and> exec (sched @ rest) ws = exec sched ws"
    if "(Suc k, Fatal m) \<in> set (exec sched ws)"
    using that by (rule exec_terminal_last) simp
  have b: "(\<exists>j e. terminal e \<and> last (exec sched ws) = (j, e))
           \<and> exec (sched @ rest) ws = exec sched ws"
    if "length (ws ! Suc k) \<le> count_list sched (Suc k)"
  proof -
    from exec_reaches_exit [OF len w _ that] obtain j e
      where "terminal e" and "(j, e) \<in> set (exec sched ws)"
      by auto
    from exec_terminal_last [OF this(2,1), of rest] \<open>terminal e\<close> show ?thesis
      by blast
  qed
  from w a b show ?thesis
    by blast
qed

theorem failure_ends_the_run_witness:
  "(last (exec (replicate 4 1)
            (workers failing_extern ''g'' [] False ''out'' no_order
               [family_def_spec, mk_spec ''iso_level'' []]))
      = (1, Fatal ''unknown production: opt_name'')
    \<and> exec (replicate 4 1 @ replicate 7 2)
         (workers failing_extern ''g'' [] False ''out'' no_order
            [family_def_spec, mk_spec ''iso_level'' []])
       = exec (replicate 4 1)
           (workers failing_extern ''g'' [] False ''out'' no_order
              [family_def_spec, mk_spec ''iso_level'' []]))
   \<and> (last (exec (replicate 5 1)
              (workers failing_extern ''g'' [] False ''out'' no_order column_def_and_iso_level))
        = (1, Fatal (''column_def: unknown production: column_def'' @ nl))
      \<and> exec (replicate 5 1 @ replicate 7 2)
           (workers failing_extern ''g'' [] False ''out'' no_order column_def_and_iso_level)
         = exec (replicate 5 1)
             (workers failing_extern ''g'' [] False ''out'' no_order column_def_and_iso_level))
   \<and> (last (exec (replicate 6 1)
              (workers failing_extern ''g'' [] False ''out'' no_order
                 [explain_stmt_spec, mk_spec ''iso_level'' []]))
        = (1, Fatal (''explain_stmt: bad status: 500'' @ nl
                       @ ''explain_stmt ::= identifier NOT''))
      \<and> exec (replicate 6 1 @ replicate 7 2)
           (workers failing_extern ''g'' [] False ''out'' no_order
              [explain_stmt_spec, mk_spec ''iso_level'' []])
         = exec (replicate 6 1)
             (workers failing_extern ''g'' [] False ''out'' no_order
                [explain_stmt_spec, mk_spec ''iso_level'' []]))"
proof -
  have p: "ParseGrammar failing_extern ''g'' = (''g'', None)"
    by (simp add: failing_extern_def demo_extern_def)
  have f: "[] = [] \<or> [] = name t" for t :: stmtSpec
    by simp
  have inline_fails:
    "\<exists>e. Inline failing_extern ''g'' (inline ([family_def_spec, mk_spec ''iso_level'' []] ! 0))
            = (''g'', Some e)"
    by (simp add: failing_extern_def family_def_spec_def mk_spec_def)
  have extract_fails:
    "Inline failing_extern ''g'' (inline (column_def_and_iso_level ! 0)) = (''g'', None)
     \<and> (\<exists>e. ExtractProduction failing_extern ''g''
                (if stmt (column_def_and_iso_level ! 0) = []
                 then name (column_def_and_iso_level ! 0)
                 else stmt (column_def_and_iso_level ! 0))
                False (nosplit (column_def_and_iso_level ! 0))
                (match (column_def_and_iso_level ! 0)) (exclude (column_def_and_iso_level ! 0))
              = ([], Some e))"
    by (simp add: failing_extern_def column_def_and_iso_level_def mk_spec_def)
  have render_fails:
    "Inline failing_extern ''g'' (inline ([explain_stmt_spec, mk_spec ''iso_level'' []] ! 0))
       = (''g'', None)
     \<and> ExtractProduction failing_extern ''g''
           (if stmt ([explain_stmt_spec, mk_spec ''iso_level'' []] ! 0) = []
            then name ([explain_stmt_spec, mk_spec ''iso_level'' []] ! 0)
            else stmt ([explain_stmt_spec, mk_spec ''iso_level'' []] ! 0))
           False (nosplit ([explain_stmt_spec, mk_spec ''iso_level'' []] ! 0))
           (match ([explain_stmt_spec, mk_spec ''iso_level'' []] ! 0))
           (exclude ([explain_stmt_spec, mk_spec ''iso_level'' []] ! 0))
         = (''explain_stmt ::= IDENT NOT_LA'', None)
     \<and> \<not> False
     \<and> apply_regreplace failing_extern (snd (no_order 0))
           (apply_replace (fst (no_order 0))
              (Replace (Replace ''explain_stmt ::= IDENT NOT_LA'' ''IDENT'' ''identifier'' (- 1))
                 ''_LA'' [] (- 1)))
         = Inr ''explain_stmt ::= identifier NOT''
     \<and> (snd (snd (runRR failing_extern (name ([explain_stmt_spec, mk_spec ''iso_level'' []] ! 0))
                     (NewReader ''explain_stmt ::= identifier NOT''))) \<noteq> None
         \<or> snd (ExtractTag failing_extern
                  (fst (snd (runRR failing_extern
                               (name ([explain_stmt_spec, mk_spec ''iso_level'' []] ! 0))
                               (NewReader ''explain_stmt ::= identifier NOT''))))
                  ''svg'') \<noteq> None)"
    by code_simp
  let ?wi = "workers failing_extern ''g'' [] False ''out'' no_order
               [family_def_spec, mk_spec ''iso_level'' []]"
  let ?wx = "workers failing_extern ''g'' [] False ''out'' no_order column_def_and_iso_level"
  let ?wr = "workers failing_extern ''g'' [] False ''out'' no_order
               [explain_stmt_spec, mk_spec ''iso_level'' []]"
  have a: "last (exec (replicate 4 1) ?wi) = (1, Fatal ''unknown production: opt_name'')
           \<and> exec (replicate 4 1 @ replicate 7 2) ?wi = exec (replicate 4 1) ?wi"
  proof -
    from failure_ends_the_run
           [where k = 0 and specs = "[family_def_spec, mk_spec ''iso_level'' []]" and X = failing_extern
                and flt = "[]" and printBNF = False and baseDir = "''out''" and ords = no_order
                and sched = "replicate 4 1" and rest = "replicate 7 2",
            OF _ refl refl f p disjI1, OF _ inline_fails]
    obtain tr m where w: "?wi ! Suc 0 = tr @ [Fatal m]"
      and r: "(Suc 0, Fatal m) \<in> set (exec (replicate 4 1) ?wi)
              \<longrightarrow> last (exec (replicate 4 1) ?wi) = (Suc 0, Fatal m)
                  \<and> exec (replicate 4 1 @ replicate 7 2) ?wi = exec (replicate 4 1) ?wi"
      by auto
    have "last (?wi ! Suc 0) = Fatal ''unknown production: opt_name''"
      by code_simp
    with w have m: "m = ''unknown production: opt_name''"
      by simp
    have "(Suc 0, Fatal ''unknown production: opt_name'') \<in> set (exec (replicate 4 1) ?wi)"
      by code_simp
    with r m show ?thesis
      by simp
  qed
  have b: "last (exec (replicate 5 1) ?wx)
             = (1, Fatal (''column_def: unknown production: column_def'' @ nl))
           \<and> exec (replicate 5 1 @ replicate 7 2) ?wx = exec (replicate 5 1) ?wx"
  proof -
    from failure_ends_the_run
           [where k = 0 and specs = "column_def_and_iso_level" and X = failing_extern
                and flt = "[]" and printBNF = False and baseDir = "''out''" and ords = no_order
                and sched = "replicate 5 1" and rest = "replicate 7 2",
            OF _ refl refl f p disjI2 [OF disjI1], OF _ extract_fails]
    obtain tr m where w: "?wx ! Suc 0 = tr @ [Fatal m]"
      and r: "(Suc 0, Fatal m) \<in> set (exec (replicate 5 1) ?wx)
              \<longrightarrow> last (exec (replicate 5 1) ?wx) = (Suc 0, Fatal m)
                  \<and> exec (replicate 5 1 @ replicate 7 2) ?wx = exec (replicate 5 1) ?wx"
      by (auto simp: column_def_and_iso_level_def)
    have "last (?wx ! Suc 0) = Fatal (''column_def: unknown production: column_def'' @ nl)"
      by code_simp
    with w have m: "m = ''column_def: unknown production: column_def'' @ nl"
      by simp
    have "(Suc 0, Fatal (''column_def: unknown production: column_def'' @ nl))
            \<in> set (exec (replicate 5 1) ?wx)"
      by code_simp
    with r m show ?thesis
      by simp
  qed
  have c: "last (exec (replicate 6 1) ?wr)
             = (1, Fatal (''explain_stmt: bad status: 500'' @ nl
                            @ ''explain_stmt ::= identifier NOT''))
           \<and> exec (replicate 6 1 @ replicate 7 2) ?wr = exec (replicate 6 1) ?wr"
  proof -
    from failure_ends_the_run
           [where k = 0 and specs = "[explain_stmt_spec, mk_spec ''iso_level'' []]" and X = failing_extern
                and flt = "[]" and printBNF = False and baseDir = "''out''" and ords = no_order
                and sched = "replicate 6 1" and rest = "replicate 7 2",
            OF _ refl refl f p disjI2 [OF disjI2], OF _ render_fails]
    obtain tr m where w: "?wr ! Suc 0 = tr @ [Fatal m]"
      and r: "(Suc 0, Fatal m) \<in> set (exec (replicate 6 1) ?wr)
              \<longrightarrow> last (exec (replicate 6 1) ?wr) = (Suc 0, Fatal m)
                  \<and> exec (replicate 6 1 @ replicate 7 2) ?wr = exec (replicate 6 1) ?wr"
      by auto
    have "last (?wr ! Suc 0) = Fatal (''explain_stmt: bad status: 500'' @ nl
                                        @ ''explain_stmt ::= identifier NOT'')"
      by code_simp
    with w have m: "m = ''explain_stmt: bad status: 500'' @ nl @ ''explain_stmt ::= identifier NOT''"
      by simp
    have "(Suc 0, Fatal (''explain_stmt: bad status: 500'' @ nl
                           @ ''explain_stmt ::= identifier NOT''))
            \<in> set (exec (replicate 6 1) ?wr)"
      by code_simp
    with r m show ?thesis
      by simp
  qed
  from a b c show ?thesis
    by (intro conjI) simp_all
qed

section \<open>Siblings and the output of a specification\<close>

text \<open>
  The file of a specification does depend on more than the grammar and its own fields.
  Run alone, the worker of \<open>iso_level\<close> leaves \<open>out/iso_level.html\<close> with its diagram;
  beside the sibling \<open>column_def\<close>, which fails first, the file is missing. And in two runs
  of \<open>truncate_stmt\<close> alone, with the same grammar, the file differs with the order in
  which the \<open>range\<close> loop visits the map \<open>s.replace\<close>.
\<close>

theorem sibling_changes_output_counterexample:
  "files_of (exec (replicate 7 1 @ replicate 7 0)
               (workers failing_extern ''g'' [] False ''out'' no_order [mk_spec ''iso_level'' []]))
      ''out/iso_level.html'' = Some ''<svg>iso_level ::= identifier NOT</svg>''
   \<and> files_of (exec (replicate 5 1 @ replicate 7 2 @ replicate 7 0)
                 (workers failing_extern ''g'' [] False ''out'' no_order column_def_and_iso_level))
        ''out/iso_level.html'' = None
   \<and> files_of (exec (replicate 7 1 @ replicate 7 0)
                 (workers demo_extern ''g'' [] False ''out'' listed_order [truncate_stmt_spec]))
        ''out/truncate.html''
       = Some ''<svg>truncate_stmt ::= 'TRUNCATE' ( table_name |  )</svg>''
   \<and> files_of (exec (replicate 7 1 @ replicate 7 0)
                 (workers demo_extern ''g'' [] False ''out'' rotated_order [truncate_stmt_spec]))
        ''out/truncate.html''
       = Some ''<svg>truncate_stmt ::= 'TRUNCATE' ( table_name | 'ONLY' table_name )</svg>''"
  by code_simp

text \<open>
  C5, amended: what the worker of a specification of \<open>main.go\<close> does, and so the file it
  writes, is computed from the base grammar bytes, the flags of the run, its own
  specification and the order in which its two \<open>range\<close> loops visit the maps of that
  specification, and from nothing else (\<open>stmt_worker\<close> has no other input: it reads the
  grammar through a reader of its own and works on its own copy of the specification).
  When no worker ends the process, then in every run in which all workers finish, whatever
  specifications of \<open>main.go\<close> run beside it and however the workers are interleaved, the
  worker performs exactly these events and its file holds exactly the bytes it wrote; here
  \<open>filepath.Join\<close> is taken to give the different file names of \<open>main.go\<close> different paths.
\<close>

theorem spec_output_independent_of_siblings:
  assumes "k < length specs"
    and "ws = workers X bnf flt printBNF baseDir ords specs"
    and "set (map name specs) \<subseteq> set spec_names"
    and "distinct (map name specs)"
    and "inj_on (filepath_Join X baseDir) (set file_names)"
    and "\<forall>w \<in> set ws. \<forall>e \<in> set w. \<not> terminal e"
    and "complete sched ws"
  shows "events_of (Suc k) (exec sched ws)
           = stmt_worker X bnf flt printBNF baseDir (ords k) (specs ! k)
         \<and> (\<forall>p b. WriteFile p b
                     \<in> set (stmt_worker X bnf flt printBNF baseDir (ords k) (specs ! k))
                 \<longrightarrow> files_of (exec sched ws) p = Some b)"
proof (intro conjI allI impI)
  from assms(1,2) have len: "Suc k < length ws"
    by (simp add: workers_def)
  from assms(1,2)
  have wk: "ws ! Suc k = stmt_worker X bnf flt printBNF baseDir (ords k) (specs ! k)"
    by (simp add: workers_def)
  from assms(7) len have "length (ws ! Suc k) \<le> count_list sched (Suc k)"
    by (simp add: complete_def)
  with exec_events_of [OF assms(6) len, of sched] wk
  show ev: "events_of (Suc k) (exec sched ws)
              = stmt_worker X bnf flt printBNF baseDir (ords k) (specs ! k)"
    by simp
  fix p b
  assume w: "WriteFile p b \<in> set (stmt_worker X bnf flt printBNF baseDir (ords k) (specs ! k))"
  from stmt_worker_write_path [OF w] have p: "p = out_path X baseDir (specs ! k)" .
  from assms(1,3) have nk: "name (specs ! k) \<in> set spec_names"
    by (auto simp: subset_iff)
  from w ev have "WriteFile p b \<in> set (events_of (Suc k) (exec sched ws))"
    by simp
  then have mem: "(Suc k, WriteFile p b) \<in> set (exec sched ws)"
    by (auto simp: events_of_def)
  have "b' = b" if "(i, WriteFile p b') \<in> set (exec sched ws)" for i b'
  proof -
    from exec_subset [OF that] have i: "i < length ws" and e: "WriteFile p b' \<in> set (ws ! i)"
      by simp_all
    have "i = Suc k"
    proof (cases i)
      case 0
      with e assms(2) have "WriteFile p b' \<in> set (stmt_block_worker X bnf flt printBNF baseDir)"
        by (simp add: workers_def)
      from stmt_block_worker_write_path [OF this] p out_paths_differ(1) [OF assms(5) nk]
      show ?thesis
        by simp
    next
      case (Suc j)
      with i assms(2) have j: "j < length specs"
        by (simp add: workers_def)
      with e Suc assms(2)
      have "WriteFile p b' \<in> set (stmt_worker X bnf flt printBNF baseDir (ords j) (specs ! j))"
        by (simp add: workers_def)
      from stmt_worker_write_path [OF this] p
      have same: "out_path X baseDir (specs ! k) = out_path X baseDir (specs ! j)"
        by simp
      from j assms(3) have nj: "name (specs ! j) \<in> set spec_names"
        by (auto simp: subset_iff)
      have "j = k"
      proof (rule ccontr)
        assume "j \<noteq> k"
        with assms(1,4) j have "name (specs ! k) \<noteq> name (specs ! j)"
          by (auto simp: distinct_conv_nth)
        from out_paths_differ(2) [OF assms(5) nk nj this] same show False
          by simp
      qed
      with Suc show ?thesis
        by simp
    qed
    with e wk w stmt_worker_write_unique show ?thesis
      by metis
  qed
  with files_of_single_writer [OF mem] show "files_of (exec sched ws) p = Some b"
    by blast
qed

lemma two_valid_workers:
  "workers demo_extern ''g'' [] False ''out'' no_order two_valid =
     [[Log ''parse: stmt_block, inline: [], descend: true'', Parse ''g'', InlineCall [],
       Extract ''stmt_block'' True True [] [], Render ''stmt_block ::= identifier NOT'',
       Log ''stmt_block: generated railroad diagram'',
       WriteFile ''out/grammar.html''
         (''<div><svg>stmt_block ::= identifier NOT</svg>'' @ generated_by @ ''</div>'')],
      [Log ''parse: insert_stmt, inline: [], descend: false'', Parse ''g'', InlineCall [],
       Extract ''insert_stmt'' False False [] [], Render ''insert_stmt ::= identifier NOT'',
       Log ''insert_stmt: generated railroad diagram'',
       WriteFile ''out/insert.html'' ''<svg>insert_stmt ::= identifier NOT</svg>''],
      [Log ''parse: drop_stmt, inline: [], descend: false'', Parse ''g'', InlineCall [],
       Extract ''drop_stmt'' False False [] [], Render ''drop_stmt ::= identifier NOT'',
       Log ''drop_stmt: generated railroad diagram'',
       WriteFile ''out/drop.html'' ''<svg>drop_stmt ::= identifier NOT</svg>'']]"
  by code_simp

theorem spec_output_independent_of_siblings_witness:
  "events_of 2 (exec [0, 1, 2, 2, 1, 0, 0, 1, 2, 2, 1, 0, 0, 1, 2, 2, 1, 0, 0, 1, 2]
                  (workers demo_extern ''g'' [] False ''out'' no_order two_valid))
     = stmt_worker demo_extern ''g'' [] False ''out'' ([], []) (mk_spec ''drop_stmt'' [])
   \<and> files_of (exec [0, 1, 2, 2, 1, 0, 0, 1, 2, 2, 1, 0, 0, 1, 2, 2, 1, 0, 0, 1, 2]
                 (workers demo_extern ''g'' [] False ''out'' no_order two_valid))
        ''out/drop.html''
       = Some ''<svg>drop_stmt ::= identifier NOT</svg>''"
proof -
  let ?ws = "workers demo_extern ''g'' [] False ''out'' no_order two_valid"
  let ?sched = "[0, 1, 2, 2, 1, 0, 0, 1, 2, 2, 1, 0, 0, 1, 2, 2, 1, 0, 0, 1, 2] :: nat list"
  have k: "1 < length two_valid"
    by (simp add: two_valid_def)
  have n: "set (map name two_valid) \<subseteq> set spec_names"
    by (simp add: two_valid_def mk_spec_def spec_names_def)
  have d: "distinct (map name two_valid)"
    by (simp add: two_valid_def mk_spec_def)
  have j: "inj_on (filepath_Join demo_extern ''out'') (set file_names)"
    by (simp add: demo_extern_def inj_on_def)
  have t: "\<forall>w \<in> set ?ws. \<forall>e \<in> set w. \<not> terminal e"
    by (simp add: two_valid_workers)
  have c: "complete ?sched ?ws"
    by code_simp
  have s: "stmt_worker demo_extern ''g'' [] False ''out'' (no_order 1) (two_valid ! 1)
             = stmt_worker demo_extern ''g'' [] False ''out'' ([], []) (mk_spec ''drop_stmt'' [])"
    by (simp add: two_valid_def no_order_def)
  have w: "WriteFile ''out/drop.html'' ''<svg>drop_stmt ::= identifier NOT</svg>''
             \<in> set (stmt_worker demo_extern ''g'' [] False ''out'' (no_order 1) (two_valid ! 1))"
    unfolding s by (simp add: demo_drop_stmt_trace)
  note th = spec_output_independent_of_siblings [OF k refl n d j t c]
  have a: "events_of 2 (exec ?sched ?ws)
             = stmt_worker demo_extern ''g'' [] False ''out'' ([], []) (mk_spec ''drop_stmt'' [])"
    using th [THEN conjunct1] unfolding s Suc_1 .
  from th [THEN conjunct2] w
  have b: "files_of (exec ?sched ?ws) ''out/drop.html''
             = Some ''<svg>drop_stmt ::= identifier NOT</svg>''"
    by blast
  from a b show ?thesis
    by (intro conjI)
qed

section \<open>The order of the replacements\<close>

lemma range_order_refl: "range_order m m"
  by (simp add: range_order_def)

lemma range_order_rotate: "range_order m (rotate n m)"
proof -
  have r1: "mset (rotate1 xs) = mset xs" for xs :: "(string \<times> string) list"
    by (cases xs) simp_all
  have "mset (rotate n m) = mset m"
    by (induction n) (simp_all add: r1)
  then show ?thesis
    by (simp add: range_order_def)
qed

text \<open>
  C2: the worker applies the literal replacements before the regular-expression ones, but
  \<open>s.replace\<close> and \<open>s.regreplace\<close> are Go maps, and a \<open>range\<close> loop visits a map in an
  order that the language leaves open and the runtime varies. For \<open>truncate_stmt\<close>, whose
  entries \<open>'ONLY' qualified_name\<close> and \<open>qualified_name\<close> depend on each other, the
  listed order removes the \<open>ONLY\<close> alternative; when the loop starts at the third entry,
  \<open>qualified_name\<close> is renamed first, the two \<open>ONLY\<close> entries match nothing, and the
  alternative stays: the later replacement has not seen the effect of the earlier ones.
\<close>

theorem replace_loop_order_failing_input:
  "range_order (replace truncate_stmt_spec) (rotate 2 (replace truncate_stmt_spec))
   \<and> apply_replace (replace truncate_stmt_spec)
        ''truncate_stmt ::= 'TRUNCATE' ( qualified_name | 'ONLY' qualified_name )''
       = ''truncate_stmt ::= 'TRUNCATE' ( table_name |  )''
   \<and> apply_replace (rotate 2 (replace truncate_stmt_spec))
        ''truncate_stmt ::= 'TRUNCATE' ( qualified_name | 'ONLY' qualified_name )''
       = ''truncate_stmt ::= 'TRUNCATE' ( table_name | 'ONLY' table_name )''"
proof -
  have "range_order (replace truncate_stmt_spec) (rotate 2 (replace truncate_stmt_spec))"
    by (rule range_order_rotate)
  moreover have "apply_replace (replace truncate_stmt_spec)
        ''truncate_stmt ::= 'TRUNCATE' ( qualified_name | 'ONLY' qualified_name )''
       = ''truncate_stmt ::= 'TRUNCATE' ( table_name |  )''"
    by code_simp
  moreover have "apply_replace (rotate 2 (replace truncate_stmt_spec))
        ''truncate_stmt ::= 'TRUNCATE' ( qualified_name | 'ONLY' qualified_name )''
       = ''truncate_stmt ::= 'TRUNCATE' ( table_name | 'ONLY' table_name )''"
    by code_simp
  ultimately show ?thesis
    by simp
qed

text \<open>
  C3: the same grammar and the same specification \<open>truncate_stmt\<close>, run twice, give two
  different files when the two runs visit the map \<open>s.replace\<close> in different orders, both
  of which the \<open>range\<close> loop can take.
\<close>

theorem pipeline_twice_failing_input:
  "range_order (replace truncate_stmt_spec) (replace truncate_stmt_spec)
   \<and> range_order (replace truncate_stmt_spec) (rotate 2 (replace truncate_stmt_spec))
   \<and> last (stmt_worker demo_extern ''g'' [] False ''out''
              (replace truncate_stmt_spec, regreplace truncate_stmt_spec) truncate_stmt_spec)
       = WriteFile ''out/truncate.html''
           ''<svg>truncate_stmt ::= 'TRUNCATE' ( table_name |  )</svg>''
   \<and> last (stmt_worker demo_extern ''g'' [] False ''out''
              (rotate 2 (replace truncate_stmt_spec), regreplace truncate_stmt_spec)
              truncate_stmt_spec)
       = WriteFile ''out/truncate.html''
           ''<svg>truncate_stmt ::= 'TRUNCATE' ( table_name | 'ONLY' table_name )</svg>''"
proof -
  have "range_order (replace truncate_stmt_spec) (rotate 2 (replace truncate_stmt_spec))"
    and "range_order (replace truncate_stmt_spec) (replace truncate_stmt_spec)"
    by (simp_all add: range_order_rotate range_order_refl)
  moreover have "last (stmt_worker demo_extern ''g'' [] False ''out''
              (replace truncate_stmt_spec, regreplace truncate_stmt_spec) truncate_stmt_spec)
       = WriteFile ''out/truncate.html''
           ''<svg>truncate_stmt ::= 'TRUNCATE' ( table_name |  )</svg>''"
    by code_simp
  moreover have "last (stmt_worker demo_extern ''g'' [] False ''out''
              (rotate 2 (replace truncate_stmt_spec), regreplace truncate_stmt_spec)
              truncate_stmt_spec)
       = WriteFile ''out/truncate.html''
           ''<svg>truncate_stmt ::= 'TRUNCATE' ( table_name | 'ONLY' table_name )</svg>''"
    by code_simp
  ultimately show ?thesis
    by simp
qed

section \<open>Removing the links to the names of \<open>unlink\<close>\<close>

text \<open>
  Where the scan for the opening tag of a link passes over text without a match.
\<close>

lemma skips_append: "skips opn (w1 @ w2) R = (skips opn w1 (w2 @ R) \<and> skips opn w2 R)"
  by (induction w1) auto

lemma skips_sublist: "skips opn w R \<Longrightarrow> sublist opn (w @ R) \<Longrightarrow> sublist opn R"
  by (induction w) (auto simp: sublist_Cons_right)

lemma skips_no_lt: "CHR ''<'' \<notin> set w \<Longrightarrow> prefix ''<'' opn \<Longrightarrow> skips opn w R"
proof (induction w)
  case Nil
  then show ?case by simp
next
  case (Cons c w)
  from Cons.prems(2) obtain r where "opn = CHR ''<'' # r"
    by (auto simp: prefix_def)
  with Cons show ?case by auto
qed

lemma skips_no_open: "no_open t \<Longrightarrow> prefix ''<a'' opn \<Longrightarrow> skips opn t R"
proof (induction t rule: no_open.induct)
  case 1
  then show ?case by simp
next
  case (2 c)
  from "2.prems"(2) obtain r where "opn = CHR ''<'' # CHR ''a'' # r"
    by (auto simp: prefix_def)
  with 2 show ?case by auto
next
  case (3 c d cs)
  from "3.prems"(2) obtain r where "opn = CHR ''<'' # CHR ''a'' # r"
    by (auto simp: prefix_def)
  with 3 show ?case by auto
qed

lemma link_open_prefix: "prefix ''<a'' (link_open u)"
  by (simp add: link_open_def)

lemma skips_close: "skips (link_open u) link_close R"
  by (simp add: link_close_def link_open_def)

lemma quote_prefix_eq:
  "q \<notin> set u \<Longrightarrow> q \<notin> set v \<Longrightarrow> prefix (u @ q # A) (v @ q # B) \<Longrightarrow> u = v \<and> prefix A B"
proof (induction u arbitrary: v)
  case Nil
  then show ?case by (cases v) auto
next
  case (Cons a u)
  then show ?case by (cases v) auto
qed

lemma word_no_quote: "list_all word_char v \<Longrightarrow> CHR 0x22 \<notin> set v"
  by (induction v) (auto simp: word_char_def)

lemma skips_quote:
  assumes "q \<notin> set w" and "q \<notin> set A" and "c \<noteq> d"
  shows "skips (A @ q # c # B) w (q # d # R)"
  using assms(1)
proof (induction w)
  case Nil
  then show ?case by simp
next
  case (Cons a w)
  have "\<not> prefix (A @ q # c # B) ((a # w) @ q # d # R)"
  proof
    assume "prefix (A @ q # c # B) ((a # w) @ q # d # R)"
    from quote_prefix_eq [OF assms(2) Cons.prems this] assms(3) show False
      by simp
  qed
  with Cons show ?case
    by simp
qed

lemma skips_attributes:
  \<comment> \<open>no tag that has a double quote before \<open>c\<close> starts in the attributes of a link to \<open>v\<close>\<close>
  assumes "CHR 0x22 \<notin> set v" and "CHR 0x22 \<notin> set A" and "prefix ''<'' A"
    and "c \<noteq> CHR '' ''" and "c \<noteq> CHR ''>''"
  shows "skips (A @ CHR 0x22 # c # B)
           (v @ [CHR 0x22] @ '' xlink:title='' @ [CHR 0x22] @ v @ [CHR 0x22] @ ''>'') R"
proof -
  let ?opn = "A @ CHR 0x22 # c # B"
  from assms(3) have lt: "prefix ''<'' ?opn"
    by (auto simp: prefix_def)
  have 1: "skips ?opn v (CHR 0x22 # CHR '' '' # (''xlink:title='' @ [CHR 0x22] @ v @ [CHR 0x22] @ ''>'' @ R))"
    using assms(1,2,4) by (rule skips_quote)
  have 2: "skips ?opn ([CHR 0x22] @ '' xlink:title='' @ [CHR 0x22]) (v @ [CHR 0x22] @ ''>'' @ R)"
    using lt by (intro skips_no_lt) simp_all
  have 3: "skips ?opn v (CHR 0x22 # CHR ''>'' # R)"
    using assms(1,2,5) by (rule skips_quote)
  have 4: "skips ?opn ([CHR 0x22] @ ''>'') R"
    using lt by (intro skips_no_lt) simp_all
  from 1 2 3 4 show ?thesis
    by (simp add: skips_append)
qed

lemma skips_other_open:
  assumes "list_all word_char u" and "CHR 0x22 \<notin> set v" and "u \<noteq> v"
  shows "skips (link_open u) (link_open v) R"
proof -
  let ?mid = "v @ [CHR 0x22] @ '' xlink:title='' @ [CHR 0x22] @ v @ [CHR 0x22] @ ''>''"
  let ?B = "''ql-grammar.html#'' @ u @ [CHR 0x22] @ '' xlink:title='' @ [CHR 0x22] @ u
              @ [CHR 0x22] @ ''>''"
  have u: "link_open u = ''<a xlink:href='' @ CHR 0x22 # CHR ''s'' # ?B"
    by (simp add: link_open_def)
  have v: "link_open v = CHR ''<'' # (''a xlink:href='' @ [CHR 0x22] @ ''sql-grammar.html#'') @ ?mid"
    by (simp add: link_open_def)
  have "\<not> prefix (link_open u) (link_open v @ R)"
  proof
    assume "prefix (link_open u) (link_open v @ R)"
    then have "prefix (u @ CHR 0x22 # ('' xlink:title='' @ [CHR 0x22] @ u @ [CHR 0x22] @ ''>''))
                 (v @ CHR 0x22 # ('' xlink:title='' @ [CHR 0x22] @ v @ [CHR 0x22] @ ''>'' @ R))"
      by (simp add: link_open_def)
    from quote_prefix_eq [OF word_no_quote [OF assms(1)] assms(2) this] assms(3) show False
      by simp
  qed
  moreover have "skips (link_open u) (''a xlink:href='' @ [CHR 0x22] @ ''sql-grammar.html#'')
                   (?mid @ R)"
    by (intro skips_no_lt) (simp_all add: link_open_def)
  moreover have "skips (link_open u) ?mid R"
    unfolding u using assms(2) by (intro skips_attributes) simp_all
  ultimately show ?thesis
    unfolding v by (simp only: skips.simps skips_append append_assoc append_Cons) simp
qed

lemma Cut_first:
  "\<not> sublist link_close inner \<Longrightarrow> Cut (inner @ link_close @ R) link_close = Some (inner, R)"
proof (induction inner)
  case Nil
  then show ?case by (simp add: link_close_def)
next
  case (Cons c inner)
  from Cons.prems have ns: "\<not> sublist link_close inner" and np: "\<not> prefix link_close (c # inner)"
    by (auto simp: sublist_Cons_right)
  have "\<not> prefix link_close (c # inner @ link_close @ R)"
  proof
    assume p: "prefix link_close (c # inner @ link_close @ R)"
    show False
    proof (cases inner)
      case Nil
      with p show ?thesis by (simp add: link_close_def)
    next
      case c1: (Cons x1 i1)
      show ?thesis
      proof (cases i1)
        case Nil
        with p c1 show ?thesis by (simp add: link_close_def)
      next
        case c2: (Cons x2 i2)
        show ?thesis
        proof (cases i2)
          case Nil
          with p c1 c2 show ?thesis by (simp add: link_close_def)
        next
          case c3: (Cons x3 i3)
          with p c1 c2 np show ?thesis by (simp add: link_close_def)
        qed
      qed
    qed
  qed
  with Cons.IH [OF ns] show ?case
    by simp
qed

lemma open_rest_needs_head: "\<not> prefix open_head s \<Longrightarrow> open_rest u s = None"
  by (simp add: open_rest_def)

lemma skips_strip: "skips open_head w R \<Longrightarrow> strip_links u (w @ R) = w @ strip_links u R"
  by (induction w) (auto simp: open_rest_needs_head)

lemma link_open_split: "link_open u = open_head @ ''.'' @ open_tail u"
  by (simp add: link_open_def open_head_def open_tail_def)

lemma open_rest_link: "open_rest u (link_open u @ X) = Some X"
  by (simp add: link_open_split open_rest_def Let_def)

lemma open_rest_other:
  assumes "list_all word_char u" and "CHR 0x22 \<notin> set v" and "u \<noteq> v"
  shows "open_rest u (link_open v @ X) = None"
proof -
  have "\<not> prefix (open_tail u) (open_tail v @ X)"
  proof
    assume "prefix (open_tail u) (open_tail v @ X)"
    then have "prefix (u @ CHR 0x22 # ('' xlink:title='' @ [CHR 0x22] @ u @ [CHR 0x22] @ ''>''))
                 (v @ CHR 0x22 # ('' xlink:title='' @ [CHR 0x22] @ v @ [CHR 0x22] @ ''>'' @ X))"
      by (simp add: open_tail_def)
    from quote_prefix_eq [OF word_no_quote [OF assms(1)] assms(2) this] assms(3) show False
      by simp
  qed
  then show ?thesis
    by (simp add: link_open_split open_rest_def Let_def)
qed

lemma strip_other_open:
  assumes "list_all word_char u" and "CHR 0x22 \<notin> set v" and "u \<noteq> v"
  shows "strip_links u (link_open v @ X) = link_open v @ strip_links u X"
proof -
  let ?mid = "v @ [CHR 0x22] @ '' xlink:title='' @ [CHR 0x22] @ v @ [CHR 0x22] @ ''>''"
  let ?w = "(''a xlink:href='' @ [CHR 0x22] @ ''sql-grammar.html#'') @ ?mid"
  have w: "link_open v = CHR ''<'' # ?w"
    by (simp add: link_open_def)
  have h: "open_head = ''<a xlink:href='' @ CHR 0x22 # CHR ''s'' # ''ql-grammar''"
    by (simp add: open_head_def)
  have "skips open_head (''a xlink:href='' @ [CHR 0x22] @ ''sql-grammar.html#'') (?mid @ X)"
    by (intro skips_no_lt) (simp_all add: open_head_def)
  moreover have "skips open_head ?mid X"
    unfolding h using assms(2) by (intro skips_attributes) simp_all
  ultimately have "skips open_head ?w X"
    by (simp only: skips_append)
  then have "strip_links u (?w @ X) = ?w @ strip_links u X"
    by (rule skips_strip)
  moreover from open_rest_other [OF assms, of X] w
  have "open_rest u (CHR ''<'' # ?w @ X) = None"
    by simp
  ultimately show ?thesis
    unfolding w by simp
qed

lemma strip_at_link:
  assumes "Cut X link_close = Some (inner, rest)"
  shows "strip_links u (link_open u @ X) = inner @ strip_links u rest"
proof -
  obtain w where w: "link_open u = CHR ''<'' # w"
    by (auto simp: link_open_def)
  from open_rest_link [of u X] w have "open_rest u (CHR ''<'' # w @ X) = Some X"
    by simp
  with assms w show ?thesis
    by simp
qed

lemma strip_render_node:
  assumes "flat_node n" and "list_all word_char u"
  shows "strip_links u (render_node n @ R) = render_node (remove_link u n) @ strip_links u R"
proof (cases n)
  case (Text t)
  with assms have "skips open_head t R"
    by (intro skips_no_open) (simp_all add: open_head_def)
  with Text show ?thesis
    by (simp add: skips_strip)
next
  case (Link v inner)
  show ?thesis
  proof (cases "v = u")
    case True
    from assms(1) Link have "Cut (inner @ link_close @ R) link_close = Some (inner, R)"
      by (simp add: Cut_first)
    from strip_at_link [OF this, of u] Link True show ?thesis
      by simp
  next
    case False
    from assms Link have "skips open_head inner (link_close @ R)"
      by (intro skips_no_open) (simp_all add: open_head_def)
    moreover have "skips open_head link_close R"
      by (simp add: link_close_def open_head_def)
    ultimately have "skips open_head (inner @ link_close) R"
      by (simp add: skips_append)
    then have "strip_links u ((inner @ link_close) @ R) = (inner @ link_close) @ strip_links u R"
      by (rule skips_strip)
    moreover from assms Link False
    have "strip_links u (link_open v @ inner @ link_close @ R)
            = link_open v @ strip_links u (inner @ link_close @ R)"
      by (intro strip_other_open) simp_all
    ultimately show ?thesis
      using Link False by simp
  qed
qed

lemma strip_render:
  "list_all flat_node doc \<Longrightarrow> list_all word_char u
     \<Longrightarrow> strip_links u (render doc) = render (map (remove_link u) doc)"
proof (induction doc)
  case Nil
  then show ?case by (simp add: render_def)
next
  case (Cons n doc)
  then have "strip_links u (render_node n @ render doc)
               = render_node (remove_link u n) @ render (map (remove_link u) doc)"
    by (simp add: strip_render_node)
  then show ?case
    by (simp add: render_def)
qed

lemma skips_node:
  assumes "flat_node n" and "list_all word_char u" and "\<not> is_link_to u n"
  shows "skips (link_open u) (render_node n) R"
proof (cases n)
  case (Text t)
  with assms show ?thesis
    by (simp add: skips_no_open link_open_prefix)
next
  case (Link v inner)
  with assms
  have "skips (link_open u) (link_open v) (inner @ link_close @ R)"
    and "skips (link_open u) inner (link_close @ R)"
    and "skips (link_open u) link_close R"
    by (simp_all add: skips_other_open skips_no_open link_open_prefix skips_close)
  with Link show ?thesis
    by (simp add: skips_append)
qed

lemma no_link_render:
  "list_all flat_node doc \<Longrightarrow> list_all word_char u \<Longrightarrow> \<forall>n \<in> set doc. \<not> is_link_to u n
     \<Longrightarrow> \<not> sublist (link_open u) (render doc)"
proof (induction doc)
  case Nil
  then show ?case by (simp add: render_def link_open_def)
next
  case (Cons n doc)
  then have "skips (link_open u) (render_node n) (render doc)"
    and "\<not> sublist (link_open u) (render doc)"
    by (simp_all add: skips_node)
  with skips_sublist show ?case
    by (auto simp: render_def)
qed

lemma flat_remove_link: "flat_node n \<Longrightarrow> flat_node (remove_link u n)"
  by (cases n) auto

lemma flat_remove_links: "list_all flat_node doc \<Longrightarrow> list_all flat_node (remove_links us doc)"
proof (induction us arbitrary: doc)
  case Nil
  then show ?case by simp
next
  case (Cons u us)
  from Cons.prems have "list_all flat_node (map (remove_link u) doc)"
    by (auto simp: list_all_iff flat_remove_link)
  from Cons.IH [OF this] show ?case
    by simp
qed

lemma no_link_remove_link: "\<not> is_link_to u (remove_link u n)"
  by (cases n) auto

lemma no_link_kept: "\<not> is_link_to u n \<Longrightarrow> \<not> is_link_to u (remove_link v n)"
  by (cases n) auto

lemma no_link_remove_links_kept:
  "\<forall>n \<in> set doc. \<not> is_link_to u n \<Longrightarrow> \<forall>n \<in> set (remove_links us doc). \<not> is_link_to u n"
proof (induction us arbitrary: doc)
  case Nil
  then show ?case by simp
next
  case (Cons v us)
  from Cons.prems have "\<forall>n \<in> set (map (remove_link v) doc). \<not> is_link_to u n"
    by (simp add: no_link_kept)
  from Cons.IH [OF this] show ?case
    by simp
qed

lemma no_link_remove_links:
  "u \<in> set us \<Longrightarrow> \<forall>n \<in> set (remove_links us doc). \<not> is_link_to u n"
proof (induction us arbitrary: doc)
  case Nil
  then show ?case by simp
next
  case (Cons a us)
  show ?case
  proof (cases "u = a")
    case True
    have "\<forall>n \<in> set (map (remove_link a) doc). \<not> is_link_to a n"
      by (simp add: no_link_remove_link)
    from no_link_remove_links_kept [OF this] True show ?thesis
      by simp
  next
    case False
    with Cons show ?thesis by simp
  qed
qed

lemma apply_unlink_render:
  "list_all flat_node doc \<Longrightarrow> list_all (list_all word_char) us
     \<Longrightarrow> apply_unlink X us (render doc) = Inr (render (remove_links us doc))"
proof (induction us arbitrary: doc)
  case Nil
  then show ?case by simp
next
  case (Cons u us)
  from Cons.prems have "list_all flat_node (map (remove_link u) doc)"
    by (auto simp: list_all_iff flat_remove_link)
  with Cons show ?case
    by (simp add: strip_render)
qed

lemma replace_all_at_old:
  "old \<noteq> [] \<Longrightarrow> replace_all old new (old @ X) = new @ replace_all old new X"
  by (cases old) auto

lemma skips_replace_all:
  "skips old w R \<Longrightarrow> replace_all old new (w @ R) = w @ replace_all old new R"
  by (induction w) auto

lemma replace_raw_node:
  assumes "flat_node n"
  shows "replace_all link_local link_global (render_raw_node n @ R)
           = render_node n @ replace_all link_local link_global R"
proof (cases n)
  case (Text t)
  with assms have "skips link_local t R"
    by (intro skips_no_open) (simp_all add: link_local_def)
  with Text show ?thesis
    by (simp add: skips_replace_all)
next
  case (Link v inner)
  let ?mid = "v @ [CHR 0x22] @ '' xlink:title='' @ [CHR 0x22] @ v @ [CHR 0x22] @ ''>''"
  have raw: "raw_open v = link_local @ ?mid" and opn: "link_open v = link_global @ ?mid"
    by (simp_all add: raw_open_def link_open_def link_local_def link_global_def)
  have l: "link_local = ''<a xlink:href='' @ CHR 0x22 # CHR ''#'' # []"
    by (simp add: link_local_def)
  from assms Link have "CHR 0x22 \<notin> set v"
    by simp
  then have "skips link_local ?mid (inner @ link_close @ R)"
    unfolding l by (intro skips_attributes) simp_all
  moreover from assms Link have "skips link_local inner (link_close @ R)"
    by (intro skips_no_open) (simp_all add: link_local_def)
  moreover have "skips link_local link_close R"
    by (simp add: link_close_def link_local_def)
  ultimately have "skips link_local (?mid @ inner @ link_close) R"
    by (simp only: skips_append append_assoc)
  from skips_replace_all [OF this, of link_global]
  have "replace_all link_local link_global (link_local @ (?mid @ inner @ link_close) @ R)
          = link_global @ (?mid @ inner @ link_close) @ replace_all link_local link_global R"
    by (simp add: replace_all_at_old link_local_def)
  with Link raw opn show ?thesis
    by simp
qed

lemma replace_render_raw:
  "list_all flat_node doc \<Longrightarrow> Replace (render_raw doc) link_local link_global (- 1) = render doc"
proof -
  assume f: "list_all flat_node doc"
  then have "replace_all link_local link_global (render_raw doc) = render doc"
  proof (induction doc)
    case Nil
    then show ?case by (simp add: render_raw_def render_def)
  next
    case (Cons n doc)
    then have "replace_all link_local link_global (render_raw_node n @ render_raw doc)
                 = render_node n @ render doc"
      by (simp add: replace_raw_node)
    then show ?case
      by (simp add: render_raw_def render_def)
  qed
  then show ?thesis
    by (simp add: Replace_def link_local_def)
qed

text \<open>
  A link to \<open>table_name\<close> nested in a link to \<open>table_name\<close>: the scan takes the outer
  opening tag with the first \<open></a>\<close>, and the markup written still holds a whole link to
  \<open>table_name\<close>.
\<close>

theorem unlink_nested_counterexample:
  "last (render_and_write demo_extern ''out'' truncate_stmt_spec nested_links)
     = WriteFile ''out/truncate.html''
         (''<svg>'' @ link_open ''table_name'' @ ''x'' @ link_close @ ''</svg>'')"
  by code_simp

text \<open>
  C9, amended: when the diagram is rendered and written without error, the rendered markup
  is flat (text and links that do not nest: no text and no link content holds \<open><a\<close> or ends
  in \<open><\<close>, no link content holds \<open></a>\<close>, no link target holds a double quote) and the
  names of the unlink set are made of letters, digits and underscores, the markup that the
  worker writes is the rendered markup with every link to a name of the unlink set
  replaced, in place, by its inner content, all other text and links as they were (their
  targets prefixed with \<open>sql-grammar.html\<close>); it holds no opening tag of a link to any name
  of the unlink set.
\<close>

theorem unlink_removes_links:
  assumes "runRR X (name s) (NewReader g) = (tr, rr, None)"
    and "ExtractTag X rr ''svg'' = (render_raw doc, None)"
    and "list_all flat_node doc"
    and "list_all (list_all word_char) (unlink s)"
    and "WriteFile_error X (out_path X baseDir s) (render (remove_links (unlink s) doc)) = None"
  shows "render_and_write X baseDir s g
           = tr @ [WriteFile (out_path X baseDir s) (render (remove_links (unlink s) doc))]
         \<and> (\<forall>u \<in> set (unlink s).
               \<not> Contains (render (remove_links (unlink s) doc)) (link_open u))"
proof (intro conjI ballI)
  from assms(3) have "Replace (render_raw doc) link_local link_global (- 1) = render doc"
    by (rule replace_render_raw)
  moreover from assms(3,4)
  have "apply_unlink X (unlink s) (render doc) = Inr (render (remove_links (unlink s) doc))"
    by (rule apply_unlink_render)
  ultimately show "render_and_write X baseDir s g
           = tr @ [WriteFile (out_path X baseDir s) (render (remove_links (unlink s) doc))]"
    using assms(1,2,5) by (simp add: render_and_write_def)
next
  fix u
  assume u: "u \<in> set (unlink s)"
  with assms(4) have "list_all word_char u"
    by (simp add: list_all_iff)
  moreover from assms(3) have "list_all flat_node (remove_links (unlink s) doc)"
    by (rule flat_remove_links)
  moreover from u have "\<forall>n \<in> set (remove_links (unlink s) doc). \<not> is_link_to u n"
    by (rule no_link_remove_links)
  ultimately show "\<not> Contains (render (remove_links (unlink s) doc)) (link_open u)"
    by (simp add: Contains_def no_link_render)
qed

theorem unlink_removes_links_witness:
  "render_and_write demo_extern ''out'' truncate_stmt_spec (render_raw sample_links)
     = [Render (render_raw sample_links), Log ''truncate_stmt: generated railroad diagram'']
       @ [WriteFile (out_path demo_extern ''out'' truncate_stmt_spec)
            (render (remove_links (unlink truncate_stmt_spec) sample_doc))]
   \<and> \<not> Contains (render (remove_links (unlink truncate_stmt_spec) sample_doc))
         (link_open ''table_name'')"
proof -
  let ?g = "render_raw sample_links"
  have r: "runRR demo_extern (name truncate_stmt_spec) (NewReader ?g)
             = ([Render ?g, Log ''truncate_stmt: generated railroad diagram''],
                ''<svg>'' @ ?g @ ''</svg>'', None)"
    by (simp add: runRR_def Let_def demo_extern_def ReadAll_NewReader truncate_stmt_spec_def)
  have e: "ExtractTag demo_extern (''<svg>'' @ ?g @ ''</svg>'') ''svg''
             = (render_raw sample_doc, None)"
    by (simp add: demo_extern_def sample_doc_def render_raw_def)
  have f: "list_all flat_node sample_doc"
    by code_simp
  have w: "list_all (list_all word_char) (unlink truncate_stmt_spec)"
    by code_simp
  have x: "WriteFile_error demo_extern (out_path demo_extern ''out'' truncate_stmt_spec)
             (render (remove_links (unlink truncate_stmt_spec) sample_doc)) = None"
    by (simp add: demo_extern_def)
  have u: "''table_name'' \<in> set (unlink truncate_stmt_spec)"
    by (simp add: truncate_stmt_spec_def)
  from unlink_removes_links [OF r e f w x] u show ?thesis
    by blast
qed

end
